theory Spec2Isabelle
  imports Main "HOL-Library.Word"
begin

unbundle bit_operations_syntax

section \<open>Data model of \<open>pyipmi/sensor.py\<close>\<close>

text \<open>
  The exceptions the code can leave a method with.  \<open>RetryError\<close>,
  \<open>CompletionCodeError\<close> and \<open>DecodingError\<close> are the classes imported from
  \<open>pyipmi.errors\<close>; \<open>NameError\<close> and \<open>TypeError\<close> are the Python built-ins raised
  when an undefined name is evaluated and when \<open>|=\<close> is applied to \<open>None\<close>.
\<close>

datatype error = RetryError | CompletionCodeError nat | DecodingError | NameError | TypeError

type_synonym byte = "8 word"

text \<open>
  Modelled from the spec: the module \<open>pyipmi.msgs.constants\<close> is not part of the
  sources.  The four completion codes the code branches on are the ones the spec calls
  "timeout", "reservation canceled", "cannot return requested number of bytes" and
  "response could not be provided"; their values are those of the IPMI standard.
\<close>

definition CC_TIMEOUT :: nat where "CC_TIMEOUT = 0xc3"
definition CC_RES_CANCELED :: nat where "CC_RES_CANCELED = 0xc5"
definition CC_CANT_RET_NUM_REQ_BYTES :: nat where "CC_CANT_RET_NUM_REQ_BYTES = 0xca"
definition CC_RESP_COULD_NOT_BE_PRV :: nat where "CC_RESP_COULD_NOT_BE_PRV = 0xce"

text \<open>
  The two requests of the repository protocol, as \<open>create_request_by_name\<close> returns
  them once their fields are set, and the response fields the code reads.
\<close>

datatype request =
    ReserveDeviceSdrRepository
  | GetDeviceSdr (req_reservation_id: nat) (req_record_id: nat) (req_offset: int) (req_length: int)

record response =
  completion_code :: nat
  reservation_id :: nat
  next_record_id :: nat
  record_data :: "byte list"

text \<open>
  The object \<open>self\<close>: the state of the transport behind \<open>send_message\<close>, the
  attribute \<open>max_req_len\<close>, and the sequence of requests handed to the transport with
  the responses it gave, in order.  The transport itself is a parameter
  \<open>send\<close> of every operation: from its state and a request it gives a response and
  its next state.
\<close>

record 't sensor =
  transport :: 't
  max_req_len :: int
  exchanged :: "(request \<times> response) list"

definition send_message ::
  "('t \<Rightarrow> request \<Rightarrow> response \<times> 't) \<Rightarrow> request \<Rightarrow> 't sensor \<Rightarrow> response \<times> 't sensor" where
  "send_message send req s =
     (case send (transport s) req of
        (rsp, t') \<Rightarrow> (rsp, s\<lparr>transport := t', exchanged := exchanged s @ [(req, rsp)]\<rparr>))"

text \<open>
  Modelled from the spec: \<open>check_completion_code\<close> of \<open>pyipmi.utils\<close> is not part
  of the sources; a completion code other than success fails with
  \<open>CompletionCodeError\<close> carrying the code.
\<close>

definition check_completion_code :: "nat \<Rightarrow> error + unit" where
  "check_completion_code cc = (if cc \<noteq> 0 then Inl (CompletionCodeError cc) else Inr ())"

text \<open>
  Modelled from the spec: \<open>ByteBuffer.pop_unsigned_int\<close> of \<open>pyipmi.utils\<close> is not
  part of the sources; it removes a little-endian unsigned integer of the given number of
  bytes from the front of the buffer and fails with \<open>DecodingError\<close> on a buffer that
  is too short.
\<close>

fun le_value :: "byte list \<Rightarrow> nat" where
  "le_value [] = 0"
| "le_value (b # bs) = unat b + 256 * le_value bs"

definition pop_unsigned_int :: "nat \<Rightarrow> byte list \<Rightarrow> error + (nat \<times> byte list)" where
  "pop_unsigned_int n buf =
     (if length buf < n then Inl DecodingError else Inr (le_value (take n buf), drop n buf))"

text \<open>
  Modelled from the spec: \<open>sdr.create_sdr\<close> is not part of the sources; the decoded
  record holds the assembled bytes and the next record id it was created with.
\<close>

record sdr =
  sdr_data :: "byte list"
  next_id :: nat

definition create_sdr :: "byte list \<Rightarrow> nat \<Rightarrow> sdr" where
  "create_sdr record_data' next_record_id' = \<lparr>sdr_data = record_data', next_id = next_record_id'\<rparr>"

section \<open>Repository retrieval\<close>

definition reserve_device_sdr_repository ::
  "('t \<Rightarrow> request \<Rightarrow> response \<times> 't) \<Rightarrow> 't sensor \<Rightarrow> (error + nat) \<times> 't sensor" where
  "reserve_device_sdr_repository send s =
     (case send_message send ReserveDeviceSdrRepository s of
        (rsp, s') \<Rightarrow>
          (case check_completion_code (completion_code rsp) of
             Inl e \<Rightarrow> (Inl e, s')
           | Inr _ \<Rightarrow> (Inr (reservation_id rsp), s')))"

text \<open>
  The \<open>while True\<close> loop of \<open>_get_device_sdr_chunk\<close>.  \<open>retry\<close> is a local
  counter that starts at 5 and only decreases until it is 0, so a natural number holds
  it.  \<open>time.sleep\<close> changes no value and is left out.
\<close>

function chunk_loop ::
  "('t \<Rightarrow> request \<Rightarrow> response \<times> 't) \<Rightarrow> nat \<Rightarrow> nat \<Rightarrow> int \<Rightarrow> int \<Rightarrow> nat \<Rightarrow> 't sensor
     \<Rightarrow> (error + nat \<times> byte list) \<times> 't sensor" where
  "chunk_loop send reservation_id' record_id offset len retry s =
     (if retry - 1 = 0 then (Inl RetryError, s)
      else
        (case send_message send (GetDeviceSdr reservation_id' record_id offset len) s of
           (rsp, s') \<Rightarrow>
             if completion_code rsp = 0 then (Inr (next_record_id rsp, record_data rsp), s')
             else if completion_code rsp = CC_RES_CANCELED then
               (case reserve_device_sdr_repository send s' of
                  (Inl e, s'') \<Rightarrow> (Inl e, s'')
                | (Inr r, s'') \<Rightarrow> chunk_loop send r record_id offset len (retry - 1) s'')
             else if completion_code rsp = CC_TIMEOUT then
               chunk_loop send reservation_id' record_id offset len (retry - 1) s'
             else if completion_code rsp = CC_RESP_COULD_NOT_BE_PRV then
               chunk_loop send reservation_id' record_id offset len (retry - 1) s'
             else
               (case check_completion_code (completion_code rsp) of
                  Inl e \<Rightarrow> (Inl e, s')
                | Inr _ \<Rightarrow> chunk_loop send reservation_id' record_id offset len (retry - 1) s')))"
  by pat_completeness auto
termination
  by (relation "measure (\<lambda>(send, r, i, off, l, retry, s). retry)") auto

definition get_device_sdr_chunk ::
  "('t \<Rightarrow> request \<Rightarrow> response \<times> 't) \<Rightarrow> nat \<Rightarrow> nat \<Rightarrow> int \<Rightarrow> int \<Rightarrow> 't sensor
     \<Rightarrow> (error + nat \<times> byte list) \<times> 't sensor" where
  "get_device_sdr_chunk send reservation_id' record_id offset len s =
     chunk_loop send reservation_id' record_id offset len 5 s"

declare chunk_loop.simps [simp del]

text \<open>
  The \<open>try\<close>/\<open>except\<close> statement in the loop of \<open>get_device_sdr\<close>.  It gives
  the values of \<open>next_record_id\<close>, \<open>data\<close> and \<open>retry\<close> and the object after it, or
  the exception that leaves the method.  When the chunk fetch raises, the tuple assignment
  does not happen, so \<open>next_record_id\<close> and \<open>data\<close> keep their old values.  The
  \<open>else\<close> branch of the handler evaluates the name \<open>Assert\<close>, which nothing
  defines: Python raises \<open>NameError\<close>.  An exception that is not a
  \<open>CompletionCodeError\<close> is not caught.
\<close>

definition try_chunk ::
  "('t \<Rightarrow> request \<Rightarrow> response \<times> 't) \<Rightarrow> nat \<Rightarrow> nat \<Rightarrow> int \<Rightarrow> int \<Rightarrow> nat \<Rightarrow> byte list \<Rightarrow> int
     \<Rightarrow> 't sensor \<Rightarrow> error \<times> 't sensor + nat \<times> byte list \<times> int \<times> 't sensor" where
  "try_chunk send reservation_id' record_id offset len next_record_id' data retry s =
     (case get_device_sdr_chunk send reservation_id' record_id offset len s of
        (Inr (next_record_id'', data'), s') \<Rightarrow> Inr (next_record_id'', data', retry, s')
      | (Inl (CompletionCodeError cc), s') \<Rightarrow>
          if cc = CC_CANT_RET_NUM_REQ_BYTES then
            (if max_req_len s' - 4 \<le> 0
             then Inr (next_record_id', data, 0, s'\<lparr>max_req_len := max_req_len s' - 4\<rparr>)
             else Inr (next_record_id', data, retry, s'\<lparr>max_req_len := max_req_len s' - 4\<rparr>))
          else Inl (NameError, s')
      | (Inl e, s') \<Rightarrow> Inl (e, s'))"

text \<open>
  The \<open>while True\<close> loop of \<open>get_device_sdr\<close>.  \<open>retry\<close> is a Python integer:
  the handler can set it to 0, and the next pass then makes it negative.  The loop need
  not end, so the result is an option and \<open>None\<close> stands for a run that never returns.
  \<open>offset\<close> is always the length of \<open>record_data\<close>.
\<close>

partial_function (option) sdr_loop ::
  "('t \<Rightarrow> request \<Rightarrow> response \<times> 't) \<Rightarrow> nat \<Rightarrow> nat \<Rightarrow> int \<Rightarrow> nat \<Rightarrow> byte list \<Rightarrow> byte list
     \<Rightarrow> int \<Rightarrow> 't sensor \<Rightarrow> ((error + sdr) \<times> 't sensor) option" where
  "sdr_loop send reservation_id' record_id record_length next_record_id' data record_data' retry s =
     (if retry - 1 = 0 then Some (Inl RetryError, s)
      else
        (case try_chunk send reservation_id' record_id (int (length record_data'))
                (if int (length record_data') + max_req_len s > record_length
                 then record_length - int (length record_data') else max_req_len s)
                next_record_id' data (retry - 1) s of
           Inl (e, s') \<Rightarrow> Some (Inl e, s')
         | Inr (next_record_id'', data', retry', s') \<Rightarrow>
             if int (length (record_data' @ data')) \<ge> record_length
             then Some (Inr (create_sdr (record_data' @ data') next_record_id''), s')
             else sdr_loop send reservation_id' record_id record_length next_record_id'' data'
                    (record_data' @ data') retry' s'))"

declare sdr_loop.simps [code]

text \<open>
  The four \<open>pop_unsigned_int\<close> calls on the header: record id, version, type and
  payload length.
\<close>

definition pop_header :: "byte list \<Rightarrow> error + (nat \<times> nat \<times> nat \<times> nat)" where
  "pop_header data =
     (case pop_unsigned_int 2 data of
        Inl e \<Rightarrow> Inl e
      | Inr (record_id, h1) \<Rightarrow>
          (case pop_unsigned_int 1 h1 of
             Inl e \<Rightarrow> Inl e
           | Inr (record_version, h2) \<Rightarrow>
               (case pop_unsigned_int 1 h2 of
                  Inl e \<Rightarrow> Inl e
                | Inr (record_type, h3) \<Rightarrow>
                    (case pop_unsigned_int 1 h3 of
                       Inl e \<Rightarrow> Inl e
                     | Inr (record_payload_length, h4) \<Rightarrow>
                         Inr (record_id, record_version, record_type, record_payload_length)))))"

definition get_device_sdr ::
  "('t \<Rightarrow> request \<Rightarrow> response \<times> 't) \<Rightarrow> nat \<Rightarrow> nat option \<Rightarrow> 't sensor
     \<Rightarrow> ((error + sdr) \<times> 't sensor) option" where
  "get_device_sdr send record_id reservation_id' s =
     (case (case reservation_id' of
              None \<Rightarrow> reserve_device_sdr_repository send s
            | Some r \<Rightarrow> (Inr r, s)) of
        (Inl e, s1) \<Rightarrow> Some (Inl e, s1)
      | (Inr r, s1) \<Rightarrow>
          (case get_device_sdr_chunk send r record_id 0 5 s1 of
             (Inl e, s2) \<Rightarrow> Some (Inl e, s2)
           | (Inr (next_record_id', data), s2) \<Rightarrow>
               (case pop_header data of
                  Inl e \<Rightarrow> Some (Inl e, s2)
                | Inr (record_id', record_version, record_type, record_payload_length) \<Rightarrow>
                    sdr_loop send r record_id' (int record_payload_length + 5) next_record_id'
                      data data 20 (s2\<lparr>max_req_len := 20\<rparr>))))"

text \<open>
  The generator \<open>device_sdr_entries\<close>, run to its end as \<open>get_device_sdr_list\<close>
  does: the records it yields, in order, and the exception that ended it, if one did.
  A chain of next ids that never reaches \<open>0xffff\<close> makes it run forever.
\<close>

partial_function (option) entries_loop ::
  "('t \<Rightarrow> request \<Rightarrow> response \<times> 't) \<Rightarrow> nat \<Rightarrow> nat \<Rightarrow> sdr list \<Rightarrow> 't sensor
     \<Rightarrow> ((sdr list \<times> error option) \<times> 't sensor) option" where
  "entries_loop send reservation_id' record_id yielded s =
     (case get_device_sdr send record_id (Some reservation_id') s of
        None \<Rightarrow> None
      | Some (Inl e, s') \<Rightarrow> Some ((yielded, Some e), s')
      | Some (Inr x, s') \<Rightarrow>
          if next_id x = 0xffff then Some ((yielded @ [x], None), s')
          else entries_loop send reservation_id' (next_id x) (yielded @ [x]) s')"

declare entries_loop.simps [code]

definition device_sdr_entries ::
  "('t \<Rightarrow> request \<Rightarrow> response \<times> 't) \<Rightarrow> 't sensor
     \<Rightarrow> ((sdr list \<times> error option) \<times> 't sensor) option" where
  "device_sdr_entries send s =
     (case reserve_device_sdr_repository send s of
        (Inl e, s') \<Rightarrow> Some (([], Some e), s')
      | (Inr r, s') \<Rightarrow> entries_loop send r 0 [] s')"

section \<open>Sensor readings and thresholds\<close>

text \<open>
  The request and the response of \<open>GetSensorReading\<close>.  The two assertion-state
  bytes are optional fields of the response; \<open>initial_update_in_progress\<close> is a
  bit field of \<open>rsp.config\<close>, tested for truth.
\<close>

record sensor_reading_req =
  reading_sensor_number :: nat
  reading_lun :: nat

record sensor_reading_rsp =
  reading_completion_code :: nat
  sensor_reading :: int
  initial_update_in_progress :: nat
  states1 :: "int option"
  states2 :: "int option"

text \<open>
  \<open>states |= (rsp.states2 << 8)\<close> with \<open>states\<close> still \<open>None\<close> raises
  \<open>TypeError\<close>.
\<close>

definition get_sensor_reading ::
  "('t \<Rightarrow> sensor_reading_req \<Rightarrow> sensor_reading_rsp \<times> 't) \<Rightarrow> nat \<Rightarrow> nat \<Rightarrow> 't
     \<Rightarrow> (error + int option \<times> int option) \<times> 't" where
  "get_sensor_reading send sensor_number lun t =
     (case send t \<lparr>reading_sensor_number = sensor_number, reading_lun = lun\<rparr> of
        (rsp, t') \<Rightarrow>
          (case check_completion_code (reading_completion_code rsp) of
             Inl e \<Rightarrow> (Inl e, t')
           | Inr _ \<Rightarrow>
               (let reading = (if initial_update_in_progress rsp \<noteq> 0 then None
                               else Some (sensor_reading rsp));
                    states = (if states1 rsp \<noteq> None then states1 rsp else None)
                in (case states2 rsp of
                      None \<Rightarrow> (Inr (reading, states), t')
                    | Some b \<Rightarrow>
                        (case states of
                           None \<Rightarrow> (Inl TypeError, t')
                         | Some a \<Rightarrow> (Inr (reading, Some (a OR push_bit 8 b)), t'))))))"

text \<open>
  The request of \<open>SetSensorThresholds\<close>: a set mask and a value for each of the six
  thresholds.  \<open>create_request_by_name\<close> is not part of the sources, so the request
  it returns is the parameter \<open>req\<close> of \<open>set_sensor_thresholds_req\<close>, the part of
  \<open>set_sensor_thresholds\<close> that fills the request in.
\<close>

record six =
  unr :: int
  ucr :: int
  unc :: int
  lnc :: int
  lcr :: int
  lnr :: int

record thresholds_req =
  sensor_number :: nat
  lun :: nat
  set_mask :: six
  threshold :: six

definition set_sensor_thresholds_req ::
  "thresholds_req \<Rightarrow> nat \<Rightarrow> nat \<Rightarrow> int option \<Rightarrow> int option \<Rightarrow> int option \<Rightarrow> int option
     \<Rightarrow> int option \<Rightarrow> int option \<Rightarrow> thresholds_req" where
  "set_sensor_thresholds_req req sensor_number' lun' unr' ucr' unc' lnc' lcr' lnr' =
     (let req = req\<lparr>sensor_number := sensor_number'\<rparr>;
          req = req\<lparr>lun := lun'\<rparr>;
          req = (case unr' of None \<Rightarrow> req
                 | Some v \<Rightarrow> req\<lparr>set_mask := (set_mask req)\<lparr>unr := 1\<rparr>,
                                  threshold := (threshold req)\<lparr>unr := v\<rparr>\<rparr>);
          req = (case ucr' of None \<Rightarrow> req
                 | Some v \<Rightarrow> req\<lparr>set_mask := (set_mask req)\<lparr>ucr := 1\<rparr>,
                                  threshold := (threshold req)\<lparr>ucr := v\<rparr>\<rparr>);
          req = (case unc' of None \<Rightarrow> req
                 | Some v \<Rightarrow> req\<lparr>set_mask := (set_mask req)\<lparr>unc := 1\<rparr>,
                                  threshold := (threshold req)\<lparr>unc := v\<rparr>\<rparr>);
          req = (case lnc' of None \<Rightarrow> req
                 | Some v \<Rightarrow> req\<lparr>set_mask := (set_mask req)\<lparr>lnc := 1\<rparr>,
                                  threshold := (threshold req)\<lparr>lnc := v\<rparr>\<rparr>);
          req = (case lcr' of None \<Rightarrow> req
                 | Some v \<Rightarrow> req\<lparr>set_mask := (set_mask req)\<lparr>lcr := 1\<rparr>,
                                  threshold := (threshold req)\<lparr>lcr := v\<rparr>\<rparr>);
          req = (case lnr' of None \<Rightarrow> req
                 | Some v \<Rightarrow> req\<lparr>set_mask := (set_mask req)\<lparr>lnr := 1\<rparr>,
                                  threshold := (threshold req)\<lparr>lnr := v\<rparr>\<rparr>)
      in req)"

definition set_sensor_thresholds ::
  "('t \<Rightarrow> thresholds_req \<Rightarrow> nat \<times> 't) \<Rightarrow> thresholds_req \<Rightarrow> nat \<Rightarrow> nat \<Rightarrow> int option
     \<Rightarrow> int option \<Rightarrow> int option \<Rightarrow> int option \<Rightarrow> int option \<Rightarrow> int option \<Rightarrow> 't
     \<Rightarrow> (error + unit) \<times> 't" where
  "set_sensor_thresholds send req sensor_number' lun' unr' ucr' unc' lnc' lcr' lnr' t =
     (case send t (set_sensor_thresholds_req req sensor_number' lun' unr' ucr' unc' lnc' lcr' lnr') of
        (completion_code', t') \<Rightarrow> (check_completion_code completion_code', t'))"

section \<open>Notions used to state the properties\<close>

text \<open>
  The chunk requests among a sequence of exchanges with the transport, in order: every
  request that is not a reservation.
\<close>

definition chunk_requests :: "(request \<times> response) list \<Rightarrow> request list" where
  "chunk_requests xs = filter (\<lambda>q. q \<noteq> ReserveDeviceSdrRepository) (map fst xs)"


text \<open>
  An exchange that does not end a chunk fetch of \<open>len\<close> bytes at \<open>off\<close> of record
  \<open>i\<close>: a reservation, or that chunk request answered with a completion code other
  than success.
\<close>

fun failed_try :: "nat \<Rightarrow> int \<Rightarrow> int \<Rightarrow> request \<times> response \<Rightarrow> bool" where
  "failed_try i off len (ReserveDeviceSdrRepository, rsp) = True"
| "failed_try i off len (GetDeviceSdr r i' off' len', rsp) =
     (i' = i \<and> off' = off \<and> len' = len \<and> completion_code rsp \<noteq> 0)"

text \<open>
  What a chunk fetch started in state \<open>s\<close> with result \<open>R\<close> has done: it has left
  \<open>max_req_len\<close> alone and has added to the exchanges a run of failed tries, followed,
  exactly when it returns a chunk, by the chunk request answered with success, whose
  response holds the next record id and the bytes returned.
\<close>

definition chunk_ok ::
  "nat \<Rightarrow> int \<Rightarrow> int \<Rightarrow> 't sensor \<Rightarrow> (error + nat \<times> byte list) \<times> 't sensor \<Rightarrow> bool" where
  "chunk_ok i off len s R =
     (max_req_len (snd R) = max_req_len s \<and>
      (\<exists>fails. list_all (failed_try i off len) fails \<and>
         (case fst R of
            Inl e \<Rightarrow> exchanged (snd R) = exchanged s @ fails
          | Inr (nxt, d) \<Rightarrow>
              (\<exists>r' rsp. exchanged (snd R) = exchanged s @ fails @ [(GetDeviceSdr r' i off len, rsp)]
                 \<and> completion_code rsp = 0 \<and> next_record_id rsp = nxt \<and> record_data rsp = d))))"

text \<open>
  The next record id of the last chunk request answered with success in a sequence of
  exchanges; \<open>a\<close> when there is none.
\<close>

fun last_fetched :: "nat option \<Rightarrow> (request \<times> response) list \<Rightarrow> nat option" where
  "last_fetched a [] = a"
| "last_fetched a ((ReserveDeviceSdrRepository, rsp) # xs) = last_fetched a xs"
| "last_fetched a ((GetDeviceSdr r i off len, rsp) # xs) =
     last_fetched (if completion_code rsp = 0 then Some (next_record_id rsp) else a) xs"

text \<open>
  The chunk requests at offset 0, which are the header fetches, and those of them that
  were answered with success; \<open>fetched\<close> lists the record ids of the latter in order.
\<close>

fun header_request :: "request \<Rightarrow> bool" where
  "header_request ReserveDeviceSdrRepository = False"
| "header_request (GetDeviceSdr r i off len) = (off = 0)"

fun header_fetch :: "request \<times> response \<Rightarrow> bool" where
  "header_fetch (q, rsp) = (header_request q \<and> completion_code rsp = 0)"

definition header_requests :: "(request \<times> response) list \<Rightarrow> request list" where
  "header_requests xs = filter header_request (map fst xs)"

definition fetched :: "(request \<times> response) list \<Rightarrow> nat list" where
  "fetched xs = map (req_record_id \<circ> fst) (filter header_fetch xs)"

text \<open>
  What the loop of \<open>get_device_sdr\<close>, started in state \<open>s\<close> with the next record
  id \<open>nxt\<close> and the buffer \<open>rd\<close>, has done when it ends with \<open>R\<close>:
  \<open>max_req_len\<close> has not grown, no request at offset 0 was sent if the buffer was not
  empty, and a record returned carries the next id of the last chunk request answered with
  success, which is \<open>nxt\<close> if there was none.
\<close>

definition assembled :: "nat \<Rightarrow> byte list \<Rightarrow> 't sensor \<Rightarrow> (error + sdr) \<times> 't sensor \<Rightarrow> bool" where
  "assembled nxt rd s R =
     (max_req_len (snd R) \<le> max_req_len s \<and>
      (\<exists>new. exchanged (snd R) = exchanged s @ new \<and>
         (rd \<noteq> [] \<longrightarrow> header_requests new = []) \<and>
         (case fst R of
            Inl e \<Rightarrow> True
          | Inr x \<Rightarrow> last_fetched (Some nxt) new = Some (next_id x))))"

text \<open>
  What the loop of \<open>device_sdr_entries\<close>, started in state \<open>s\<close> at record id
  \<open>i\<close>, has done when it ends in state \<open>s'\<close> having yielded \<open>zs\<close> and raised
  \<open>eo\<close>.  If \<open>i\<close> is not \<open>0xffff\<close>, no header was asked for with that id.  When
  the generator ends without an exception, the last record yielded is the only one whose
  next id is \<open>0xffff\<close>, and the headers fetched are those of \<open>i\<close> and of the next ids
  of the records yielded before the last, in this order.
\<close>

definition enumerated :: "nat \<Rightarrow> 't sensor \<Rightarrow> sdr list \<Rightarrow> error option \<Rightarrow> 't sensor \<Rightarrow> bool" where
  "enumerated i s zs eo s' =
     (\<exists>new. exchanged s' = exchanged s @ new \<and>
        (i \<noteq> 0xffff \<longrightarrow> (\<forall>q \<in> set (header_requests new). req_record_id q \<noteq> 0xffff)) \<and>
        (case eo of
           None \<Rightarrow> zs \<noteq> [] \<and> next_id (last zs) = 0xffff \<and>
                   (\<forall>y \<in> set (butlast zs). next_id y \<noteq> 0xffff) \<and>
                   fetched new = i # map next_id (butlast zs)
         | Some e \<Rightarrow> (\<forall>y \<in> set zs. next_id y \<noteq> 0xffff)))"

text \<open>
  A transport serves the bytes \<open>rec\<close> as record \<open>i\<close> when, in every state and under
  every reservation, it answers a read of \<open>len\<close> bytes at offset \<open>off\<close> inside the
  record with success and exactly those bytes.  A single read of the whole record returns
  \<open>rec\<close>.
\<close>

definition serves :: "('t \<Rightarrow> request \<Rightarrow> response \<times> 't) \<Rightarrow> nat \<Rightarrow> byte list \<Rightarrow> bool" where
  "serves send i rec =
     (\<forall>t r off len. 0 \<le> off \<and> 0 \<le> len \<and> off + len \<le> int (length rec) \<longrightarrow>
        completion_code (fst (send t (GetDeviceSdr r i off len))) = 0 \<and>
        record_data (fst (send t (GetDeviceSdr r i off len))) = take (nat len) (drop (nat off) rec))"

text \<open>
  A sequence of chunk requests reads the bytes from \<open>off\<close> to \<open>L\<close> in order: each
  request starts where the one before it ended, none reaches beyond \<open>L\<close>, every request
  but the last asks for at least one byte, so the offsets increase strictly, and the last
  one ends at \<open>L\<close>.
\<close>

fun contiguous :: "int \<Rightarrow> int \<Rightarrow> request list \<Rightarrow> bool" where
  "contiguous off L [] = (off = L)"
| "contiguous off L (ReserveDeviceSdrRepository # qs) = False"
| "contiguous off L (GetDeviceSdr r i off' len # qs) =
     (off' = off \<and> 0 \<le> len \<and> off + len \<le> L \<and> (qs \<noteq> [] \<longrightarrow> 0 < len) \<and> contiguous (off + len) L qs)"



text \<open>
  The lengths asked for by a sequence of chunk requests never increase from one request to
  the next, and the first is at most \<open>b\<close>.
\<close>

fun descending :: "int \<Rightarrow> request list \<Rightarrow> bool" where
  "descending b [] = True"
| "descending b (q # qs) = (req_length q \<le> b \<and> descending (req_length q) qs)"

text \<open>
  What the loop of \<open>get_device_sdr\<close>, started in state \<open>s\<close> with the buffer
  \<open>rd\<close> of a record of length \<open>L\<close>, has done to the chunk length when it ends with
  \<open>R\<close>: \<open>max_req_len\<close> has not grown, and the lengths of the chunk requests sent
  never increase, starting at most at the smaller of \<open>max_req_len\<close> and the bytes
  missing.
\<close>

definition shrinking :: "int \<Rightarrow> byte list \<Rightarrow> 't sensor \<Rightarrow> (error + sdr) \<times> 't sensor \<Rightarrow> bool" where
  "shrinking L rd s R =
     (max_req_len (snd R) \<le> max_req_len s \<and>
      (\<exists>new. exchanged (snd R) = exchanged s @ new \<and>
         descending (min (max_req_len s) (L - int (length rd))) (chunk_requests new)))"

text \<open>
  An exchange is an answer of the transport to a read inside the first \<open>L\<close> bytes of
  record \<open>i\<close>.
\<close>

definition answered :: "('t \<Rightarrow> request \<Rightarrow> response \<times> 't) \<Rightarrow> nat \<Rightarrow> int \<Rightarrow> request \<times> response \<Rightarrow> bool" where
  "answered send i L x =
     (\<exists>t r off len. 0 \<le> off \<and> 0 \<le> len \<and> off + len \<le> L \<and>
        x = (GetDeviceSdr r i off len, fst (send t (GetDeviceSdr r i off len))))"





section \<open>Controllers used in the examples\<close>

text \<open>
  A transport that answers from a script: its state is the list of responses still to be
  given; each request takes the first one.  When the script is used up it answers
  "timeout".
\<close>

definition ok_rsp :: "nat \<Rightarrow> byte list \<Rightarrow> response" where
  "ok_rsp nxt bs = \<lparr>completion_code = 0, reservation_id = 0, next_record_id = nxt, record_data = bs\<rparr>"

definition cc_rsp :: "nat \<Rightarrow> response" where
  "cc_rsp cc = \<lparr>completion_code = cc, reservation_id = 0, next_record_id = 0, record_data = []\<rparr>"

fun scripted :: "response list \<Rightarrow> request \<Rightarrow> response \<times> response list" where
  "scripted [] req = (cc_rsp CC_TIMEOUT, [])"
| "scripted (r # rs) req = (r, rs)"

text \<open>
  A controller that holds a repository, a list of (record id, record bytes, next record
  id), and serves every read of a known record with the bytes asked for.  It has no state.
\<close>

fun lookup_record :: "(nat \<times> byte list \<times> nat) list \<Rightarrow> nat \<Rightarrow> (byte list \<times> nat) option" where
  "lookup_record [] i = None"
| "lookup_record ((j, bs, nxt) # rest) i = (if i = j then Some (bs, nxt) else lookup_record rest i)"

definition repository :: "(nat \<times> byte list \<times> nat) list \<Rightarrow> unit \<Rightarrow> request \<Rightarrow> response \<times> unit" where
  "repository repo u req =
     (case req of
        ReserveDeviceSdrRepository \<Rightarrow>
          (\<lparr>completion_code = 0, reservation_id = 1, next_record_id = 0, record_data = []\<rparr>, ())
      | GetDeviceSdr r i off len \<Rightarrow>
          (case lookup_record repo i of
             None \<Rightarrow> (cc_rsp 0xcb, ())
           | Some (bs, nxt) \<Rightarrow> (ok_rsp nxt (take (nat len) (drop (nat off) bs)), ())))"

text \<open>
  An object on which no method has run yet, over a transport in state \<open>t\<close>.  The
  attribute \<open>max_req_len\<close> does not exist before the first call of
  \<open>get_device_sdr\<close> and is never read before that call assigns it; 0 stands for it.
\<close>

definition fresh :: "'t \<Rightarrow> 't sensor" where
  "fresh t = \<lparr>transport = t, max_req_len = 0, exchanged = []\<rparr>"


text \<open>A transport for the sensor commands that gives the same response every time.\<close>

definition constantly :: "'r \<Rightarrow> unit \<Rightarrow> 'q \<Rightarrow> 'r \<times> unit" where
  "constantly rsp u req = (rsp, ())"

definition blank :: thresholds_req where
  "blank = \<lparr>sensor_number = 0, lun = 0,
            set_mask = \<lparr>unr = 0, ucr = 0, unc = 0, lnc = 0, lcr = 0, lnr = 0\<rparr>,
            threshold = \<lparr>unr = 0, ucr = 0, unc = 0, lnc = 0, lcr = 0, lnr = 0\<rparr>\<rparr>"


text \<open>
  A repository of three records with ids 0, 1 and 2, chained by the next ids 1, 2 and
  \<open>0xffff\<close>, with payloads of 1, 0 and 2 bytes.
\<close>

definition three_records :: "(nat \<times> byte list \<times> nat) list" where
  "three_records =
     [(0, [0, 0, 0x51, 1, 1, 0xaa], 1),
      (1, [1, 0, 0x51, 1, 0], 2),
      (2, [2, 0, 0x51, 1, 2, 0xbb, 0xcc], 0xffff)]"


text \<open>
  A script for two calls of \<open>get_device_sdr\<close> in a row.  Record 0 has a payload of 8
  bytes; its first chunk request is refused with "cannot return requested number of
  bytes".  Record 1 has no payload.  \<open>after_first_record\<close> is the object between the two
  calls.
\<close>

definition two_call_script :: "response list" where
  "two_call_script =
     [ok_rsp 1 [0, 0, 0x51, 1, 8], cc_rsp CC_CANT_RET_NUM_REQ_BYTES, ok_rsp 1 [1, 2, 3],
      ok_rsp 0xffff [1, 0, 0x51, 1, 0], ok_rsp 0xffff []]"

definition after_first_record :: "response list sensor" where
  "after_first_record =
     \<lparr>transport = [ok_rsp 0xffff [1, 0, 0x51, 1, 0], ok_rsp 0xffff []],
      max_req_len = 16,
      exchanged = [(GetDeviceSdr 7 0 0 5, ok_rsp 1 [0, 0, 0x51, 1, 8]),
                   (GetDeviceSdr 7 0 5 8, cc_rsp CC_CANT_RET_NUM_REQ_BYTES),
                   (GetDeviceSdr 7 0 10 3, ok_rsp 1 [1, 2, 3])]\<rparr>"


text \<open>
  A transport for \<open>SetSensorThresholds\<close> that answers success; its state is the list
  of requests it was sent.
\<close>

definition recording :: "thresholds_req list \<Rightarrow> thresholds_req \<Rightarrow> nat \<times> thresholds_req list" where
  "recording sent req = (0, sent @ [req])"

text \<open>
  An object that an earlier assembly has left with \<open>max_req_len = 4\<close>, over a script
  for a record of 35 bytes whose first chunk request is refused with "cannot return
  requested number of bytes"; \<open>stale_after_header\<close> is the object after the header
  fetch.
\<close>

definition shrink_script :: "response list" where
  "shrink_script =
     [ok_rsp 1 [0, 0, 0x51, 1, 30], cc_rsp CC_CANT_RET_NUM_REQ_BYTES,
      ok_rsp 1 (replicate 16 0), ok_rsp 0xffff (replicate 9 0)]"

definition stale_object :: "response list sensor" where
  "stale_object = \<lparr>transport = shrink_script, max_req_len = 4, exchanged = []\<rparr>"

definition stale_after_header :: "response list sensor" where
  "stale_after_header =
     \<lparr>transport = [cc_rsp CC_CANT_RET_NUM_REQ_BYTES, ok_rsp 1 (replicate 16 0),
                   ok_rsp 0xffff (replicate 9 0)],
      max_req_len = 4,
      exchanged = [(GetDeviceSdr 7 0 0 5, ok_rsp 1 [0, 0, 0x51, 1, 30])]\<rparr>"

section \<open>What a chunk fetch does to the object\<close>

lemma chunk_ok_Inl:
  "chunk_ok i off len s (Inl e, s') =
     (max_req_len s' = max_req_len s \<and>
      (\<exists>fails. list_all (failed_try i off len) fails \<and> exchanged s' = exchanged s @ fails))"
  by (simp add: chunk_ok_def)

lemma chunk_ok_Inr:
  "chunk_ok i off len s (Inr (nxt, d), s') =
     (max_req_len s' = max_req_len s \<and>
      (\<exists>fails. list_all (failed_try i off len) fails \<and>
         (\<exists>r' rsp. exchanged s' = exchanged s @ fails @ [(GetDeviceSdr r' i off len, rsp)]
                 \<and> completion_code rsp = 0 \<and> next_record_id rsp = nxt \<and> record_data rsp = d)))"
  by (simp add: chunk_ok_def)

lemma chunk_ok_stop: "chunk_ok i off len s (Inl e, s)"
  unfolding chunk_ok_Inl by (intro conjI refl exI [of _ "[]"]) simp_all

lemma chunk_ok_done:
  assumes "completion_code rsp = 0"
  shows "chunk_ok i off len s
     (Inr (next_record_id rsp, record_data rsp),
      s\<lparr>transport := t, exchanged := exchanged s @ [(GetDeviceSdr r i off len, rsp)]\<rparr>)"
  unfolding chunk_ok_Inr
  using assms by (intro conjI exI [of _ "[]"] exI [of _ r] exI [of _ rsp]) simp_all

lemma chunk_ok_raise:
  "list_all (failed_try i off len) pre \<Longrightarrow> exchanged s1 = exchanged s @ pre \<Longrightarrow> max_req_len s1 = max_req_len s \<Longrightarrow>
   chunk_ok i off len s (Inl e, s1)"
  unfolding chunk_ok_Inl by blast

lemma chunk_ok_after:
  assumes "chunk_ok i off len s1 R" and "list_all (failed_try i off len) pre"
      and "exchanged s1 = exchanged s @ pre" and "max_req_len s1 = max_req_len s"
  shows "chunk_ok i off len s R"
proof (cases R)
  case (Pair res s')
  show ?thesis
  proof (cases res)
    case (Inl e)
    from assms(1) obtain fails where
      f: "list_all (failed_try i off len) fails" "exchanged s' = exchanged s1 @ fails"
         "max_req_len s' = max_req_len s1"
      unfolding Pair Inl chunk_ok_Inl by blast
    have "list_all (failed_try i off len) (pre @ fails)" using f(1) assms(2) by simp
    moreover have "exchanged s' = exchanged s @ (pre @ fails)" using f(2) assms(3) by simp
    ultimately show ?thesis unfolding Pair Inl chunk_ok_Inl using f(3) assms(4) by metis
  next
    case (Inr p)
    obtain nxt d where p: "p = (nxt, d)" by (cases p)
    from assms(1) obtain fails r' rsp where
      f: "list_all (failed_try i off len) fails"
         "exchanged s' = exchanged s1 @ fails @ [(GetDeviceSdr r' i off len, rsp)]"
         "completion_code rsp = 0" "next_record_id rsp = nxt" "record_data rsp = d"
         "max_req_len s' = max_req_len s1"
      unfolding Pair Inr p chunk_ok_Inr by blast
    have "list_all (failed_try i off len) (pre @ fails)" using f(1) assms(2) by simp
    moreover have "exchanged s' = exchanged s @ (pre @ fails) @ [(GetDeviceSdr r' i off len, rsp)]"
      using f(2) assms(3) by simp
    ultimately show ?thesis unfolding Pair Inr p chunk_ok_Inr using f(3-6) assms(4) by metis
  qed
qed

lemma chunk_loop_ok: "chunk_ok i off len s (chunk_loop send r i off len n s)"
proof (induction n arbitrary: r s)
  case 0
  show ?case by (subst chunk_loop.simps) (simp add: chunk_ok_stop)
next
  case (Suc n)
  show ?case
  proof (cases "n = 0")
    case True
    then show ?thesis by (subst chunk_loop.simps) (simp add: chunk_ok_stop)
  next
    case False
    obtain rsp t' where snd: "send (transport s) (GetDeviceSdr r i off len) = (rsp, t')"
      by (cases "send (transport s) (GetDeviceSdr r i off len)")
    define s1 where "s1 = s\<lparr>transport := t', exchanged := exchanged s @ [(GetDeviceSdr r i off len, rsp)]\<rparr>"
    have sm: "send_message send (GetDeviceSdr r i off len) s = (rsp, s1)"
      by (simp add: send_message_def snd s1_def)
    have ex1: "exchanged s1 = exchanged s @ [(GetDeviceSdr r i off len, rsp)]"
      and mx1: "max_req_len s1 = max_req_len s" by (simp_all add: s1_def)
    show ?thesis
    proof (cases "completion_code rsp = 0")
      case True
      have "chunk_loop send r i off len (Suc n) s = (Inr (next_record_id rsp, record_data rsp), s1)"
        using False True by (subst chunk_loop.simps) (simp add: sm)
      then show ?thesis using chunk_ok_done [OF True, where i=i and off=off and len=len and s=s and t=t' and r=r] by (simp add: s1_def)
    next
      case nz: False
      hence pre1: "list_all (failed_try i off len) [(GetDeviceSdr r i off len, rsp)]" by simp
      have cont: "chunk_ok i off len s (chunk_loop send r' i off len n s1)" for r'
        by (rule chunk_ok_after [OF Suc.IH pre1 ex1 mx1])
      show ?thesis
      proof (cases "completion_code rsp = CC_RES_CANCELED")
        case True
        obtain rsp2 t2 where snd2: "send (transport s1) ReserveDeviceSdrRepository = (rsp2, t2)"
          by (cases "send (transport s1) ReserveDeviceSdrRepository")
        define s2 where "s2 = s1\<lparr>transport := t2, exchanged := exchanged s1 @ [(ReserveDeviceSdrRepository, rsp2)]\<rparr>"
        have ex2: "exchanged s2 = exchanged s @ [(GetDeviceSdr r i off len, rsp), (ReserveDeviceSdrRepository, rsp2)]"
          and mx2: "max_req_len s2 = max_req_len s" by (simp_all add: s2_def s1_def)
        have pre2: "list_all (failed_try i off len) [(GetDeviceSdr r i off len, rsp), (ReserveDeviceSdrRepository, rsp2)]"
          using nz by simp
        have rv: "reserve_device_sdr_repository send s1 =
                    (if completion_code rsp2 \<noteq> 0 then (Inl (CompletionCodeError (completion_code rsp2)), s2)
                     else (Inr (reservation_id rsp2), s2))"
          by (simp add: reserve_device_sdr_repository_def send_message_def snd2 check_completion_code_def s2_def)
        show ?thesis
        proof (cases "completion_code rsp2 = 0")
          case True
          have "chunk_loop send r i off len (Suc n) s = chunk_loop send (reservation_id rsp2) i off len n s2"
            using False nz \<open>completion_code rsp = CC_RES_CANCELED\<close> True
            by (subst chunk_loop.simps) (simp add: sm rv)
          then show ?thesis using chunk_ok_after [OF Suc.IH pre2 ex2 mx2] by simp
        next
          case False
          have "chunk_loop send r i off len (Suc n) s = (Inl (CompletionCodeError (completion_code rsp2)), s2)"
            using \<open>n \<noteq> 0\<close> nz \<open>completion_code rsp = CC_RES_CANCELED\<close> False
            by (subst chunk_loop.simps) (simp add: sm rv)
          then show ?thesis using chunk_ok_raise [OF pre2 ex2 mx2] by simp
        qed
      next
        case nc: False
        show ?thesis
        proof (cases "completion_code rsp = CC_TIMEOUT \<or> completion_code rsp = CC_RESP_COULD_NOT_BE_PRV")
          case True
          have "chunk_loop send r i off len (Suc n) s = chunk_loop send r i off len n s1"
            using False nz nc True by (subst chunk_loop.simps) (auto simp: sm)
          then show ?thesis using cont by simp
        next
          case False
          have "chunk_loop send r i off len (Suc n) s = (Inl (CompletionCodeError (completion_code rsp)), s1)"
            using \<open>n \<noteq> 0\<close> nz nc False
            by (subst chunk_loop.simps) (simp add: sm check_completion_code_def)
          then show ?thesis using chunk_ok_raise [OF pre1 ex1 mx1] by simp
        qed
      qed
    qed
  qed
qed
section \<open>What the assembly loop does to the object\<close>

lemma last_fetched_append: "last_fetched a (xs @ ys) = last_fetched (last_fetched a xs) ys"
  by (induction a xs rule: last_fetched.induct) simp_all

lemma last_fetched_fails: "list_all (failed_try i off len) fails \<Longrightarrow> last_fetched a fails = a"
  by (induction a fails rule: last_fetched.induct) simp_all

lemma header_requests_append: "header_requests (xs @ ys) = header_requests xs @ header_requests ys"
  by (simp add: header_requests_def)

lemma header_requests_fails:
  "off \<noteq> 0 \<Longrightarrow> list_all (failed_try i off len) fails \<Longrightarrow> header_requests fails = []"
proof (induction fails)
  case Nil
  show ?case by (simp add: header_requests_def)
next
  case (Cons x xs)
  obtain q rsp where x: "x = (q, rsp)" by (cases x)
  from Cons have "header_requests xs = []" by simp
  moreover from Cons.prems x have "\<not> header_request q" by (cases q) auto
  ultimately show ?case by (simp add: header_requests_def x)
qed

lemma try_chunk_Inl:
  assumes "try_chunk send r i off len nxt data retry s = Inl (e, s1)"
  shows "max_req_len s1 = max_req_len s
         \<and> (\<exists>new. exchanged s1 = exchanged s @ new \<and> list_all (failed_try i off len) new)"
proof -
  obtain res s' where c: "get_device_sdr_chunk send r i off len s = (res, s')"
    by (cases "get_device_sdr_chunk send r i off len s")
  have ok: "chunk_ok i off len s (res, s')"
    using chunk_loop_ok [of i off len s send r 5] c by (simp add: get_device_sdr_chunk_def)
  from assms c obtain e' where res: "res = Inl e'" and s1: "s1 = s'"
    by (cases res) (auto simp: try_chunk_def split: error.splits if_splits)
  from ok show ?thesis unfolding res s1 chunk_ok_Inl by blast
qed

lemma try_chunk_Inr:
  assumes "try_chunk send r i off len nxt data retry s = Inr (nxt', data', retry', s1)"
  shows "max_req_len s1 \<le> max_req_len s
         \<and> (\<exists>new. exchanged s1 = exchanged s @ new
                \<and> (off \<noteq> 0 \<longrightarrow> header_requests new = [])
                \<and> last_fetched (Some nxt) new = Some nxt')"
proof -
  obtain res s' where c: "get_device_sdr_chunk send r i off len s = (res, s')"
    by (cases "get_device_sdr_chunk send r i off len s")
  have ok: "chunk_ok i off len s (res, s')"
    using chunk_loop_ok [of i off len s send r 5] c by (simp add: get_device_sdr_chunk_def)
  show ?thesis
  proof (cases res)
    case (Inl e)
    from assms c Inl have s1: "exchanged s1 = exchanged s'" "max_req_len s1 = max_req_len s' - 4"
      and n: "nxt' = nxt"
      by (auto simp: try_chunk_def split: error.splits if_splits)
    from ok obtain fails where f: "list_all (failed_try i off len) fails"
      "exchanged s' = exchanged s @ fails" "max_req_len s' = max_req_len s"
      unfolding Inl chunk_ok_Inl by blast
    have "last_fetched (Some nxt) fails = Some nxt'" using f(1) n by (simp add: last_fetched_fails)
    moreover have "off \<noteq> 0 \<longrightarrow> header_requests fails = []"
      using f(1) by (simp add: header_requests_fails)
    ultimately show ?thesis using s1 f(2,3) by auto
  next
    case (Inr p)
    obtain n d where p: "p = (n, d)" by (cases p)
    from assms c Inr p have s1: "s1 = s'" and n: "nxt' = n"
      by (auto simp: try_chunk_def)
    from ok obtain fails r' rsp where f: "list_all (failed_try i off len) fails"
      "exchanged s' = exchanged s @ fails @ [(GetDeviceSdr r' i off len, rsp)]"
      "completion_code rsp = 0" "next_record_id rsp = n" "max_req_len s' = max_req_len s"
      unfolding Inr p chunk_ok_Inr by blast
    have "last_fetched (Some nxt) (fails @ [(GetDeviceSdr r' i off len, rsp)]) = Some nxt'"
      using f(1,3,4) n by (simp add: last_fetched_append last_fetched_fails)
    moreover have "off \<noteq> 0 \<longrightarrow> header_requests (fails @ [(GetDeviceSdr r' i off len, rsp)]) = []"
      using f(1) by (simp add: header_requests_append header_requests_fails) (simp add: header_requests_def)
    ultimately show ?thesis using s1 f(2,5) by auto
  qed
qed

lemma assembled_Inl:
  "assembled nxt rd s (Inl e, s') =
     (max_req_len s' \<le> max_req_len s \<and>
      (\<exists>new. exchanged s' = exchanged s @ new \<and> (rd \<noteq> [] \<longrightarrow> header_requests new = [])))"
  by (simp add: assembled_def)

lemma assembled_Inr:
  "assembled nxt rd s (Inr x, s') =
     (max_req_len s' \<le> max_req_len s \<and>
      (\<exists>new. exchanged s' = exchanged s @ new \<and> (rd \<noteq> [] \<longrightarrow> header_requests new = [])
          \<and> last_fetched (Some nxt) new = Some (next_id x)))"
  by (simp add: assembled_def)

lemma assembled_after:
  assumes a: "assembled nxt' (rd @ data') s1 R"
      and m: "max_req_len s1 \<le> max_req_len s"
      and e: "exchanged s1 = exchanged s @ new1"
      and h: "rd \<noteq> [] \<longrightarrow> header_requests new1 = []"
      and l: "last_fetched (Some nxt) new1 = Some nxt'"
  shows "assembled nxt rd s R"
proof (cases R)
  case (Pair res s')
  show ?thesis
  proof (cases res)
    case (Inl err)
    from a obtain new where
      n: "exchanged s' = exchanged s1 @ new" "rd @ data' \<noteq> [] \<longrightarrow> header_requests new = []"
         "max_req_len s' \<le> max_req_len s1"
      unfolding Pair Inl assembled_Inl by blast
    have "exchanged s' = exchanged s @ (new1 @ new)" using n(1) e by simp
    moreover have "rd \<noteq> [] \<longrightarrow> header_requests (new1 @ new) = []"
      using n(2) h by (simp add: header_requests_append)
    moreover have "max_req_len s' \<le> max_req_len s" using n(3) m by simp
    ultimately show ?thesis unfolding Pair Inl assembled_Inl by blast
  next
    case (Inr x)
    from a obtain new where
      n: "exchanged s' = exchanged s1 @ new" "rd @ data' \<noteq> [] \<longrightarrow> header_requests new = []"
         "max_req_len s' \<le> max_req_len s1" "last_fetched (Some nxt') new = Some (next_id x)"
      unfolding Pair Inr assembled_Inr by blast
    have "exchanged s' = exchanged s @ (new1 @ new)" using n(1) e by simp
    moreover have "rd \<noteq> [] \<longrightarrow> header_requests (new1 @ new) = []"
      using n(2) h by (simp add: header_requests_append)
    moreover have "max_req_len s' \<le> max_req_len s" using n(3) m by simp
    moreover have "last_fetched (Some nxt) (new1 @ new) = Some (next_id x)"
      using n(4) l by (simp add: last_fetched_append)
    ultimately show ?thesis unfolding Pair Inr assembled_Inr by blast
  qed
qed

lemma sdr_loop_assembled:
  assumes "sdr_loop send r i L nxt data rd retry s = Some R"
  shows "assembled nxt rd s R"
  using assms
proof (induction rule: sdr_loop.raw_induct [rotated 1, consumes 1, case_names step])
  case (step loop send r i L nxt data rd retry s R)
  show ?case
  proof (cases "retry - 1 = 0")
    case True
    with step.hyps have "R = (Inl RetryError, s)" by simp
    then show ?thesis
      by (simp add: assembled_Inl header_requests_def)
  next
    case False
    define len where "len = (if L < int (length rd) + max_req_len s
                  then L - int (length rd) else max_req_len s)"
    show ?thesis
    proof (cases "try_chunk send r i (int (length rd)) len nxt data (retry - 1) s")
      case (Inl p)
      obtain e s1 where p: "p = (e, s1)" by (cases p)
      from step.hyps False Inl p have R: "R = (Inl e, s1)" by (simp add: len_def)
      from try_chunk_Inl [OF Inl [unfolded p]] obtain new where
        n: "max_req_len s1 = max_req_len s" "exchanged s1 = exchanged s @ new"
           "list_all (failed_try i (int (length rd)) len) new" by blast
      have "rd \<noteq> [] \<longrightarrow> header_requests new = []"
        using n(3) header_requests_fails [of "int (length rd)" i len new] by simp
      then show ?thesis unfolding R assembled_Inl using n(1,2) by auto
    next
      case (Inr p)
      obtain nxt' data' retry' s1 where p: "p = (nxt', data', retry', s1)" by (cases p)
      from try_chunk_Inr [OF Inr [unfolded p]] obtain new where
        n: "max_req_len s1 \<le> max_req_len s" "exchanged s1 = exchanged s @ new"
           "int (length rd) \<noteq> 0 \<longrightarrow> header_requests new = []"
           "last_fetched (Some nxt) new = Some nxt'" by blast
      have h: "rd \<noteq> [] \<longrightarrow> header_requests new = []" using n(3) by simp
      show ?thesis
      proof (cases "L \<le> int (length (rd @ data'))")
        case True
        from step.hyps False Inr p True
        have R: "R = (Inr (create_sdr (rd @ data') nxt'), s1)" by (simp add: len_def)
        show ?thesis unfolding R assembled_Inr
          using n(1,2,4) h by (auto simp: create_sdr_def)
      next
        case nd: False
        from step.hyps False Inr p nd
        have "loop send r i L nxt' data' (rd @ data') retry' s1 = Some R" by (simp add: len_def)
        from step.IH [OF this] have "assembled nxt' (rd @ data') s1 R" .
        from assembled_after [OF this n(1,2) h n(4)] show ?thesis .
      qed
    qed
  qed
qed

lemma fetched_append: "fetched (xs @ ys) = fetched xs @ fetched ys"
  by (simp add: fetched_def)

lemma fetched_fails: "list_all (failed_try i off len) fails \<Longrightarrow> fetched fails = []"
proof (induction fails)
  case Nil
  show ?case by (simp add: fetched_def)
next
  case (Cons x xs)
  obtain q rsp where x: "x = (q, rsp)" by (cases x)
  from Cons have "fetched xs = []" by simp
  moreover from Cons.prems x have "\<not> header_fetch (q, rsp)" by (cases q) auto
  ultimately show ?case by (simp add: fetched_def x)
qed

lemma fetched_no_header: "header_requests xs = [] \<Longrightarrow> fetched xs = []"
  by (induction xs) (auto simp: header_requests_def fetched_def split: if_splits)

lemma header_requests_ids:
  "list_all (failed_try i off len) fails \<Longrightarrow> \<forall>q \<in> set (header_requests fails). req_record_id q = i"
proof (induction fails)
  case Nil
  show ?case by (simp add: header_requests_def)
next
  case (Cons x xs)
  obtain q rsp where x: "x = (q, rsp)" by (cases x)
  from Cons have "\<forall>q \<in> set (header_requests xs). req_record_id q = i" by simp
  moreover from Cons.prems x have "header_request q \<longrightarrow> req_record_id q = i" by (cases q) auto
  ultimately show ?case by (simp add: header_requests_def x)
qed

lemma reserve_trace:
  assumes "reserve_device_sdr_repository send s = (rr, s1)"
  shows "max_req_len s1 = max_req_len s \<and> (\<exists>rsp. exchanged s1 = exchanged s @ [(ReserveDeviceSdrRepository, rsp)])"
  using assms
  by (auto simp: reserve_device_sdr_repository_def send_message_def split: prod.splits sum.splits)

lemma pop_header_Inr:
  assumes "pop_header data = Inr (i', v, t, pl)"
  shows "5 \<le> length data \<and> i' = le_value (take 2 data) \<and> pl = unat (data ! 4)"
proof -
  have l: "5 \<le> length data"
    using assms by (auto simp: pop_header_def pop_unsigned_int_def split: if_splits)
  then obtain a b c d e rest where data: "data = a # b # c # d # e # rest"
    by (cases data; simp; rename_tac x1 l1; case_tac l1; simp; rename_tac x2 l2; case_tac l2; simp;
        rename_tac x3 l3; case_tac l3; simp; rename_tac x4 l4; case_tac l4; simp)
  from assms show ?thesis unfolding data
    by (auto simp: pop_header_def pop_unsigned_int_def)
qed

lemma get_device_sdr_trace:
  assumes "get_device_sdr send i ro s = Some (res, s')"
  shows "\<exists>new. exchanged s' = exchanged s @ new
           \<and> (\<forall>q \<in> set (header_requests new). req_record_id q = i)
           \<and> (\<forall>x. res = Inr x \<longrightarrow>
                 fetched new = [i] \<and> last_fetched None new = Some (next_id x) \<and> max_req_len s' \<le> 20)"
proof -
  obtain rr s1 where pre: "(case ro of None \<Rightarrow> reserve_device_sdr_repository send s | Some r \<Rightarrow> (Inr r, s)) = (rr, s1)"
    by (cases "(case ro of None \<Rightarrow> reserve_device_sdr_repository send s | Some r \<Rightarrow> (Inr r, s))")
  have "\<exists>pre. exchanged s1 = exchanged s @ pre \<and> list_all (failed_try i 0 5) pre
          \<and> max_req_len s1 = max_req_len s"
  proof (cases ro)
    case None
    with pre reserve_trace [of send s rr s1] obtain rsp where
      "exchanged s1 = exchanged s @ [(ReserveDeviceSdrRepository, rsp)]"
      "max_req_len s1 = max_req_len s" by auto
    moreover have "list_all (failed_try i 0 5) [(ReserveDeviceSdrRepository, rsp)]" by simp
    ultimately show ?thesis by blast
  next
    case (Some r)
    with pre have "exchanged s1 = exchanged s @ []" "max_req_len s1 = max_req_len s" by simp_all
    moreover have "list_all (failed_try i 0 5) []" by simp
    ultimately show ?thesis by blast
  qed
  then obtain pre0 where p0: "exchanged s1 = exchanged s @ pre0" "list_all (failed_try i 0 5) pre0"
    "max_req_len s1 = max_req_len s"
    by blast
  show ?thesis
  proof (cases rr)
    case (Inl e)
    with assms pre have "res = Inl e" "s' = s1" by (simp_all add: get_device_sdr_def)
    with p0 header_requests_ids [OF p0(2)] show ?thesis by auto
  next
    case (Inr r)
    obtain hres s2 where h: "get_device_sdr_chunk send r i 0 5 s1 = (hres, s2)"
      by (cases "get_device_sdr_chunk send r i 0 5 s1")
    have c1: "chunk_ok i 0 5 s1 (hres, s2)"
      using chunk_loop_ok [of i 0 5 s1 send r 5] h by (simp add: get_device_sdr_chunk_def)
    have ok: "chunk_ok i 0 5 s (hres, s2)"
      by (rule chunk_ok_after [OF c1 p0(2) p0(1) p0(3)])
    show ?thesis
    proof (cases hres)
      case e: (Inl e)
      with assms pre Inr h have r: "res = Inl e" "s' = s2" by (simp_all add: get_device_sdr_def)
      from ok obtain fails where "list_all (failed_try i 0 5) fails" "exchanged s2 = exchanged s @ fails"
        unfolding e chunk_ok_Inl by blast
      with r header_requests_ids [of i 0 5 fails] show ?thesis by auto
    next
      case p: (Inr p)
      obtain nxt data where pd: "p = (nxt, data)" by (cases p)
      from ok obtain fails r' rsp where
        f: "list_all (failed_try i 0 5) fails"
           "exchanged s2 = exchanged s @ fails @ [(GetDeviceSdr r' i 0 5, rsp)]"
           "completion_code rsp = 0" "next_record_id rsp = nxt"
        unfolding p pd chunk_ok_Inr by blast
      define new1 where "new1 = fails @ [(GetDeviceSdr r' i 0 5, rsp)]"
      have n1: "exchanged s2 = exchanged s @ new1" using f(2) by (simp add: new1_def)
      have hid1: "\<forall>q \<in> set (header_requests new1). req_record_id q = i"
        using header_requests_ids [OF f(1)] by (auto simp: new1_def header_requests_def)
      have fet1: "fetched new1 = [i]"
        using f(1,3) by (simp add: new1_def fetched_append fetched_fails) (simp add: fetched_def)
      have lf1: "last_fetched None new1 = Some nxt"
        using f(1,3,4) by (simp add: new1_def last_fetched_append last_fetched_fails)
      show ?thesis
      proof (cases "pop_header data")
        case e: (Inl e)
        with assms pre Inr h p pd have r: "res = Inl e" "s' = s2" by (simp_all add: get_device_sdr_def)
        with n1 hid1 show ?thesis by auto
      next
        case hd: (Inr hd)
        obtain i' v t pl where hdr: "hd = (i', v, t, pl)" by (cases hd)
        from pop_header_Inr [OF hd [unfolded hdr]] have ne: "data \<noteq> []" by auto
        from assms pre Inr h p pd hd hdr
        have "sdr_loop send r i' (int pl + 5) nxt data data 20 (s2\<lparr>max_req_len := 20\<rparr>) = Some (res, s')"
          by (simp add: get_device_sdr_def)
        from sdr_loop_assembled [OF this] have as: "assembled nxt data (s2\<lparr>max_req_len := 20\<rparr>) (res, s')" .
        show ?thesis
        proof (cases res)
          case (Inl e)
          from as ne obtain new where "exchanged s' = exchanged s2 @ new" "header_requests new = []"
            unfolding Inl assembled_Inl by auto
          with n1 hid1 have "exchanged s' = exchanged s @ (new1 @ new)"
            "\<forall>q \<in> set (header_requests (new1 @ new)). req_record_id q = i"
            by (simp_all add: header_requests_append)
          with Inl show ?thesis by blast
        next
          case x: (Inr x)
          from as ne obtain new where
            n: "exchanged s' = exchanged s2 @ new" "header_requests new = []"
               "last_fetched (Some nxt) new = Some (next_id x)" "max_req_len s' \<le> 20"
            unfolding x assembled_Inr by auto
          from n n1 hid1 have "exchanged s' = exchanged s @ (new1 @ new)"
            "\<forall>q \<in> set (header_requests (new1 @ new)). req_record_id q = i"
            by (simp_all add: header_requests_append)
          moreover have "fetched (new1 @ new) = [i]"
            using fet1 fetched_no_header [OF n(2)] by (simp add: fetched_append)
          moreover have "last_fetched None (new1 @ new) = Some (next_id x)"
            using lf1 n(3) by (simp add: last_fetched_append)
          ultimately show ?thesis using n(4) x by blast
        qed
      qed
    qed
  qed
qed

lemma entries_loop_enumerated:
  assumes "entries_loop send r i yielded s = Some ((ys, eo), s')"
  shows "\<exists>zs. ys = yielded @ zs \<and> enumerated i s zs eo s'"
proof -
  have "entries_loop send r i yielded s = Some R \<Longrightarrow>
        \<exists>zs. fst (fst R) = yielded @ zs \<and> enumerated i s zs (snd (fst R)) (snd R)" for R
  proof (induction rule: entries_loop.raw_induct [rotated 1, consumes 1, case_names step])
    case (step loop send r i yielded s R)
    from step.hyps obtain res s1 where g: "get_device_sdr send i (Some r) s = Some (res, s1)"
      by (cases "get_device_sdr send i (Some r) s") auto
    from get_device_sdr_trace [OF g] obtain new1 where
      n1: "exchanged s1 = exchanged s @ new1"
          "\<forall>q \<in> set (header_requests new1). req_record_id q = i"
          "\<forall>x. res = Inr x \<longrightarrow> fetched new1 = [i]"
      by blast
    show ?case
    proof (cases res)
      case (Inl e)
      with step.hyps g have R: "R = ((yielded, Some e), s1)" by simp
      have "enumerated i s [] (Some e) s1"
        unfolding enumerated_def using n1(1,2) by auto
      then show ?thesis by (simp add: R)
    next
      case (Inr x)
      hence f1: "fetched new1 = [i]" using n1(3) by simp
      show ?thesis
      proof (cases "next_id x = 0xffff")
        case True
        with step.hyps g Inr have R: "R = ((yielded @ [x], None), s1)" by simp
        have "enumerated i s [x] None s1"
          unfolding enumerated_def using n1(1,2) f1 True by auto
        then show ?thesis by (simp add: R)
      next
        case False
        with step.hyps g Inr have "loop send r (next_id x) (yielded @ [x]) s1 = Some R" by simp
        from step.IH [OF this] obtain zs where
          z: "fst (fst R) = (yielded @ [x]) @ zs" "enumerated (next_id x) s1 zs (snd (fst R)) (snd R)"
          by blast
        from z(2) False obtain new2 where
          n2: "exchanged (snd R) = exchanged s1 @ new2"
              "\<forall>q \<in> set (header_requests new2). req_record_id q \<noteq> 0xffff"
              "case snd (fst R) of
                 None \<Rightarrow> zs \<noteq> [] \<and> next_id (last zs) = 0xffff \<and>
                   (\<forall>y \<in> set (butlast zs). next_id y \<noteq> 0xffff) \<and>
                   fetched new2 = next_id x # map next_id (butlast zs)
               | Some e \<Rightarrow> (\<forall>y \<in> set zs. next_id y \<noteq> 0xffff)"
          unfolding enumerated_def by blast
        have e: "exchanged (snd R) = exchanged s @ (new1 @ new2)" using n1(1) n2(1) by simp
        have h: "i \<noteq> 0xffff \<longrightarrow> (\<forall>q \<in> set (header_requests (new1 @ new2)). req_record_id q \<noteq> 0xffff)"
          using n1(2) n2(2) by (auto simp: header_requests_append)
        have c: "case snd (fst R) of
                 None \<Rightarrow> (x # zs) \<noteq> [] \<and> next_id (last (x # zs)) = 0xffff \<and>
                   (\<forall>y \<in> set (butlast (x # zs)). next_id y \<noteq> 0xffff) \<and>
                   fetched (new1 @ new2) = i # map next_id (butlast (x # zs))
               | Some e \<Rightarrow> (\<forall>y \<in> set (x # zs). next_id y \<noteq> 0xffff)"
          using n2(3) False f1 by (auto simp: fetched_append split: option.splits)
        have "enumerated i s (x # zs) (snd (fst R)) (snd R)"
          unfolding enumerated_def using e h c by blast
        with z(1) show ?thesis by auto
      qed
    qed
  qed
  from this [OF assms] show ?thesis by simp
qed

lemma chunk_loop_extends:
  "\<exists>rest. exchanged (snd (chunk_loop send r i off len n s)) = exchanged s @ rest"
proof (cases "chunk_loop send r i off len n s")
  case (Pair res s')
  have ok: "chunk_ok i off len s (res, s')" using chunk_loop_ok [of i off len s send r n] Pair by simp
  show ?thesis
  proof (cases res)
    case (Inl e)
    with ok Pair show ?thesis by (auto simp: chunk_ok_Inl)
  next
    case (Inr p)
    obtain nxt d where "p = (nxt, d)" by (cases p)
    with ok Pair Inr show ?thesis by (auto simp: chunk_ok_Inr)
  qed
qed

lemma chunk_loop_first:
  "\<exists>rsp rest. exchanged (snd (chunk_loop send r i off len (Suc (Suc n)) s)) =
                exchanged s @ (GetDeviceSdr r i off len, rsp) # rest"
proof -
  obtain rsp t' where snd: "send (transport s) (GetDeviceSdr r i off len) = (rsp, t')"
    by (cases "send (transport s) (GetDeviceSdr r i off len)")
  define s1 where "s1 = s\<lparr>transport := t', exchanged := exchanged s @ [(GetDeviceSdr r i off len, rsp)]\<rparr>"
  have sm: "send_message send (GetDeviceSdr r i off len) s = (rsp, s1)"
    by (simp add: send_message_def snd s1_def)
  have ex1: "exchanged s1 = exchanged s @ [(GetDeviceSdr r i off len, rsp)]" by (simp add: s1_def)
  obtain rr s2 where rv: "reserve_device_sdr_repository send s1 = (rr, s2)"
    by (cases "reserve_device_sdr_repository send s1")
  from reserve_trace [OF rv] obtain rsp2 where
    ex2: "exchanged s2 = exchanged s1 @ [(ReserveDeviceSdrRepository, rsp2)]" by blast
  have cont1: "\<exists>rest. exchanged (snd (chunk_loop send r' i off len (Suc n) s1)) = exchanged s1 @ rest" for r'
    by (rule chunk_loop_extends)
  have cont2: "\<exists>rest. exchanged (snd (chunk_loop send r' i off len (Suc n) s2)) = exchanged s1 @ rest" for r'
    using chunk_loop_extends [of send r' i off len "Suc n" s2] ex2 by auto
  have "\<exists>rest. exchanged (snd (chunk_loop send r i off len (Suc (Suc n)) s)) = exchanged s1 @ rest"
    using cont1 cont2 ex2
    by (subst chunk_loop.simps) (auto simp: sm rv split: sum.splits)
  then show ?thesis using ex1 by auto
qed

lemma try_chunk_exchanged:
  "exchanged (case try_chunk send r i off len nxt data retry s of
                Inl (e, s') \<Rightarrow> s' | Inr (n, d, k, s') \<Rightarrow> s') =
   exchanged (snd (get_device_sdr_chunk send r i off len s))"
  by (cases "get_device_sdr_chunk send r i off len s")
     (auto simp: try_chunk_def split: sum.splits error.splits)

lemma sdr_loop_first:
  assumes "retry - 1 \<noteq> 0" and "sdr_loop send r i L nxt data rd retry s = Some (res, s')"
  shows "\<exists>rsp rest. exchanged s' =
           exchanged s @ (GetDeviceSdr r i (int (length rd))
                            (if L < int (length rd) + max_req_len s
                             then L - int (length rd) else max_req_len s), rsp) # rest"
proof -
  define len where "len = (if L < int (length rd) + max_req_len s
                             then L - int (length rd) else max_req_len s)"
  from chunk_loop_first [of send r i "int (length rd)" len 3 s] obtain rsp rest where
    c: "exchanged (snd (get_device_sdr_chunk send r i (int (length rd)) len s)) =
          exchanged s @ (GetDeviceSdr r i (int (length rd)) len, rsp) # rest"
    by (auto simp: get_device_sdr_chunk_def numeral_eq_Suc)
  note t = try_chunk_exchanged [of send r i "int (length rd)" len nxt data "retry - 1" s]
  from assms have body:
    "(case try_chunk send r i (int (length rd)) len nxt data (retry - 1) s of
           Inl (e, s') \<Rightarrow> Some (Inl e, s')
         | Inr (next_record_id'', data', retry', s') \<Rightarrow>
             if int (length (rd @ data')) \<ge> L
             then Some (Inr (create_sdr (rd @ data') next_record_id''), s')
             else sdr_loop send r i L next_record_id'' data' (rd @ data') retry' s') = Some (res, s')"
    by (subst (asm) sdr_loop.simps) (simp add: len_def)
  show ?thesis
  proof (cases "try_chunk send r i (int (length rd)) len nxt data (retry - 1) s")
    case (Inl p)
    obtain e s1 where p: "p = (e, s1)" by (cases p)
    from body Inl p have "s' = s1" by simp
    with t Inl p c show ?thesis by (auto simp: len_def)
  next
    case (Inr p)
    obtain n d k s1 where p: "p = (n, d, k, s1)" by (cases p)
    from t Inr p c have e1: "exchanged s1 = exchanged s @ (GetDeviceSdr r i (int (length rd)) len, rsp) # rest"
      by simp
    show ?thesis
    proof (cases "int (length (rd @ d)) \<ge> L")
      case True
      with body Inr p have "s' = s1" by simp
      with e1 show ?thesis by (auto simp: len_def)
    next
      case False
      with body Inr p have "sdr_loop send r i L n d (rd @ d) k s1 = Some (res, s')" by simp
      from sdr_loop_assembled [OF this] obtain new where "exchanged s' = exchanged s1 @ new"
        unfolding assembled_def by auto
      with e1 show ?thesis by (auto simp: len_def)
    qed
  qed
qed

lemma pop_header_5:
  assumes "length data = 5"
  shows "\<exists>v t. pop_header data = Inr (le_value (take 2 data), v, t, unat (data ! 4))"
proof -
  from assms obtain a b c d e where data: "data = [a, b, c, d, e]"
    by (cases data; simp; rename_tac x1 l1; case_tac l1; simp; rename_tac x2 l2; case_tac l2; simp;
        rename_tac x3 l3; case_tac l3; simp; rename_tac x4 l4; case_tac l4; simp)
  show ?thesis unfolding data by (simp add: pop_header_def pop_unsigned_int_def)
qed
section \<open>Assembly from a controller that serves the record\<close>

lemma chunk_served:
  assumes "serves send i rec" "0 \<le> off" "0 \<le> len" "off + len \<le> int (length rec)"
  shows "\<exists>nxt s' rsp. get_device_sdr_chunk send r i off len s =
            (Inr (nxt, take (nat len) (drop (nat off) rec)), s')
          \<and> max_req_len s' = max_req_len s
          \<and> exchanged s' = exchanged s @ [(GetDeviceSdr r i off len, rsp)]
          \<and> nxt = next_record_id rsp
          \<and> answered send i (int (length rec)) (GetDeviceSdr r i off len, rsp)"
proof -
  obtain rsp t' where snd: "send (transport s) (GetDeviceSdr r i off len) = (rsp, t')"
    by (cases "send (transport s) (GetDeviceSdr r i off len)")
  from assms have "completion_code (fst (send (transport s) (GetDeviceSdr r i off len))) = 0 \<and>
        record_data (fst (send (transport s) (GetDeviceSdr r i off len))) = take (nat len) (drop (nat off) rec)"
    unfolding serves_def by blast
  with snd have ok: "completion_code rsp = 0" "record_data rsp = take (nat len) (drop (nat off) rec)"
    by simp_all
  have "get_device_sdr_chunk send r i off len s =
          (Inr (next_record_id rsp, take (nat len) (drop (nat off) rec)),
           s\<lparr>transport := t', exchanged := exchanged s @ [(GetDeviceSdr r i off len, rsp)]\<rparr>)"
    unfolding get_device_sdr_chunk_def
    by (subst chunk_loop.simps) (simp add: send_message_def snd ok)
  moreover have "answered send i (int (length rec)) (GetDeviceSdr r i off len, rsp)"
    unfolding answered_def using assms(2-4) snd
    by (intro exI [of _ "transport s"] exI [of _ r] exI [of _ off] exI [of _ len]) simp
  ultimately show ?thesis by auto
qed

lemma sdr_loop_step:
  assumes "retry - 1 \<noteq> 0"
      and "try_chunk send r i (int (length rd))
             (if L < int (length rd) + max_req_len s then L - int (length rd) else max_req_len s)
             nxt data (retry - 1) s = Inr (nxt1, data1, retry1, s1)"
  shows "sdr_loop send r i L nxt data rd retry s =
           (if L \<le> int (length (rd @ data1)) then Some (Inr (create_sdr (rd @ data1) nxt1), s1)
            else sdr_loop send r i L nxt1 data1 (rd @ data1) retry1 s1)"
  using assms by (subst sdr_loop.simps) simp

lemma sdr_loop_served:
  assumes sv: "serves send i rec"
  shows "k \<le> length rec \<Longrightarrow> max_req_len s = 20 \<Longrightarrow> 2 \<le> retry
         \<Longrightarrow> int (length rec) - int k \<le> 20 * (retry - 1)
         \<Longrightarrow> \<exists>nxt' s' new. sdr_loop send r i (int (length rec)) nxt data (take k rec) retry s =
                  Some (Inr (create_sdr rec nxt'), s')
                \<and> exchanged s' = exchanged s @ new
                \<and> contiguous (int k) (int (length rec)) (map fst new)
                \<and> new \<noteq> [] \<and> list_all (answered send i (int (length rec))) new
                \<and> nxt' = next_record_id (snd (last new))"
proof (induction "length rec - k" arbitrary: k retry s nxt data rule: less_induct)
  case less
  define L where "L = int (length rec)"
  define len where "len = (if L < int k + 20 then L - int k else 20)"
  have lk: "length (take k rec) = k" using less.prems(1) by simp
  have len0: "0 \<le> len" and lenL: "int k + len \<le> L"
    using less.prems(1) by (auto simp: len_def L_def)
  from chunk_served [OF sv _ len0, of "int k" r s] lenL obtain nxt1 s1 rsp where
    c: "get_device_sdr_chunk send r i (int k) len s =
            (Inr (nxt1, take (nat len) (drop k rec)), s1)"
       "max_req_len s1 = max_req_len s"
       "exchanged s1 = exchanged s @ [(GetDeviceSdr r i (int k) len, rsp)]"
       "nxt1 = next_record_id rsp"
       "answered send i L (GetDeviceSdr r i (int k) len, rsp)"
    by (auto simp: L_def)
  have t: "try_chunk send r i (int k) len nxt data (retry - 1) s =
             Inr (nxt1, take (nat len) (drop k rec), retry - 1, s1)"
    by (simp add: try_chunk_def c(1))
  have app: "take k rec @ take (nat len) (drop k rec) = take (k + nat len) rec"
    by (simp add: take_add)
  have lapp: "int (length (take (k + nat len) rec)) = int k + len"
    using len0 lenL by (simp add: L_def)
  have unfold: "sdr_loop send r i L nxt data (take k rec) retry s =
          (if L \<le> int k + len then Some (Inr (create_sdr (take (k + nat len) rec) nxt1), s1)
           else sdr_loop send r i L nxt1 (take (nat len) (drop k rec)) (take (k + nat len) rec) (retry - 1) s1)"
  proof -
    have lenq: "(if L < int k + max_req_len s then L - int k else max_req_len s) = len"
      by (simp only: less.prems(2) len_def)
    have tq: "try_chunk send r i (int (length (take k rec)))
                (if L < int (length (take k rec)) + max_req_len s
                 then L - int (length (take k rec)) else max_req_len s) nxt data (retry - 1) s =
             Inr (nxt1, take (nat len) (drop k rec), retry - 1, s1)"
      by (simp only: lk lenq t)
    have nz: "retry - 1 \<noteq> 0" using less.prems(3) by simp
    from sdr_loop_step [OF nz tq] show ?thesis by (simp only: app lapp)
  qed
  show ?case
  proof (cases "L \<le> int k + len")
    case True
    with lenL have e: "int k + len = L" by simp
    hence "take (k + nat len) rec = rec" using len0 by (simp add: L_def)
    with unfold True have "sdr_loop send r i L nxt data (take k rec) retry s =
          Some (Inr (create_sdr rec nxt1), s1)" by simp
    moreover have "contiguous (int k) L (map fst [(GetDeviceSdr r i (int k) len, rsp)])"
      using len0 e by simp
    moreover have "list_all (answered send i L) [(GetDeviceSdr r i (int k) len, rsp)]"
      using c(5) by simp
    moreover have "nxt1 = next_record_id (snd (last [(GetDeviceSdr r i (int k) len, rsp)]))"
      using c(4) by simp
    ultimately show ?thesis using c(3) unfolding L_def by blast
  next
    case False
    hence l20: "len = 20" and far: "int k + 20 < L" by (auto simp: len_def split: if_splits)
    define k' where "k' = k + 20"
    have k': "k' \<le> length rec" "length rec - k' < length rec - k" using far by (auto simp: k'_def L_def)
    have r': "2 \<le> retry - 1" "int (length rec) - int k' \<le> 20 * (retry - 1 - 1)"
      using far less.prems(4) by (auto simp: k'_def L_def)
    from less.hyps [OF k'(2) k'(1) _ r', of s1 nxt1 "take (nat len) (drop k rec)"] c(2) less.prems(2)
    obtain nxt' s' new where
      ih: "sdr_loop send r i (int (length rec)) nxt1 (take (nat len) (drop k rec)) (take k' rec) (retry - 1) s1 =
                  Some (Inr (create_sdr rec nxt'), s')"
          "exchanged s' = exchanged s1 @ new"
          "contiguous (int k') (int (length rec)) (map fst new)"
          "new \<noteq> []" "list_all (answered send i (int (length rec))) new"
          "nxt' = next_record_id (snd (last new))"
      by auto
    from unfold False ih(1) have "sdr_loop send r i L nxt data (take k rec) retry s =
          Some (Inr (create_sdr rec nxt'), s')"
      by (simp add: l20 k'_def L_def)
    moreover have "exchanged s' = exchanged s @ ((GetDeviceSdr r i (int k) len, rsp) # new)"
      using ih(2) c(3) by simp
    moreover have "contiguous (int k) L (map fst ((GetDeviceSdr r i (int k) len, rsp) # new))"
      using ih(3) far by (simp add: l20 k'_def L_def)
    moreover have "list_all (answered send i L) ((GetDeviceSdr r i (int k) len, rsp) # new)"
      using ih(5) c(5) by (simp add: L_def)
    moreover have "nxt' = next_record_id (snd (last ((GetDeviceSdr r i (int k) len, rsp) # new)))"
      using ih(4,6) by simp
    ultimately show ?thesis unfolding L_def by blast
  qed
qed

lemma contiguous_no_reserve:
  "contiguous off L qs \<Longrightarrow> filter (\<lambda>q. q \<noteq> ReserveDeviceSdrRepository) qs = qs"
  by (induction off L qs rule: contiguous.induct) simp_all
lemma answered_id: "answered send i L x \<Longrightarrow> req_record_id (fst x) = i"
  by (auto simp: answered_def)


lemma get_device_sdr_served:
  assumes wf: "length rec = unat (rec ! 4) + 5"
      and sv: "serves send i rec" and sv': "serves send (le_value (take 2 rec)) rec"
      and rs: "ro = None \<longrightarrow> (\<forall>t. completion_code (fst (send t ReserveDeviceSdrRepository)) = 0)"
  shows "\<exists>nxt s' new. get_device_sdr send i ro s = Some (Inr (create_sdr rec nxt), s')
           \<and> exchanged s' = exchanged s @ new
           \<and> contiguous 0 (int (length rec)) (chunk_requests new)
           \<and> (\<forall>q \<in> set (chunk_requests new).
                 req_record_id q = i \<or> req_record_id q = le_value (take 2 rec))
           \<and> (\<exists>x. answered send (le_value (take 2 rec)) (int (length rec)) x
                   \<and> nxt = next_record_id (snd x))"
proof -
  have "\<exists>r s0 pre. (case ro of None \<Rightarrow> reserve_device_sdr_repository send s | Some r \<Rightarrow> (Inr r, s)) = (Inr r, s0)
          \<and> exchanged s0 = exchanged s @ pre \<and> chunk_requests pre = []"
  proof (cases ro)
    case None
    obtain rsp t' where snd: "send (transport s) ReserveDeviceSdrRepository = (rsp, t')"
      by (cases "send (transport s) ReserveDeviceSdrRepository")
    with rs None have "completion_code rsp = 0" by (metis fst_conv)
    with snd have "reserve_device_sdr_repository send s =
        (Inr (reservation_id rsp), s\<lparr>transport := t', exchanged := exchanged s @ [(ReserveDeviceSdrRepository, rsp)]\<rparr>)"
      by (simp add: reserve_device_sdr_repository_def send_message_def check_completion_code_def)
    moreover have "chunk_requests [(ReserveDeviceSdrRepository, rsp)] = []" by (simp add: chunk_requests_def)
    ultimately show ?thesis using None by auto
  next
    case (Some r)
    have "chunk_requests [] = []" by (simp add: chunk_requests_def)
    with Some show ?thesis by auto
  qed
  then obtain r s0 pre where
    p: "(case ro of None \<Rightarrow> reserve_device_sdr_repository send s | Some r \<Rightarrow> (Inr r, s)) = (Inr r, s0)"
       "exchanged s0 = exchanged s @ pre" "chunk_requests pre = []"
    by blast
  have l5: "5 \<le> length rec" using wf by simp
  from chunk_served [OF sv, of 0 5 r s0] l5 obtain nxt0 s1 rsp where
    h: "get_device_sdr_chunk send r i 0 5 s0 = (Inr (nxt0, take 5 rec), s1)"
       "exchanged s1 = exchanged s0 @ [(GetDeviceSdr r i 0 5, rsp)]"
    by auto
  have "length (take 5 rec) = 5" using l5 by simp
  from pop_header_5 [OF this] l5 obtain v t where
    ph: "pop_header (take 5 rec) = Inr (le_value (take 2 rec), v, t, unat (rec ! 4))"
    by auto
  have L: "uint (rec ! 4) + 5 = int (length rec)" using wf by simp
  define s2 where "s2 = s1\<lparr>max_req_len := 20\<rparr>"
  have g: "get_device_sdr send i ro s =
           sdr_loop send r (le_value (take 2 rec)) (int (length rec)) nxt0 (take 5 rec) (take 5 rec) 20 s2"
    by (simp add: get_device_sdr_def p(1) h(1) ph L s2_def)
  have "uint (rec ! 4) < 256" using uint_lt2p [of "rec ! 4"] by simp
  hence b: "int (length rec) - int 5 \<le> 20 * (20 - 1)" using L by simp
  from sdr_loop_served [OF sv' l5 _ _ b, of s2 r nxt0 "take 5 rec"] obtain nxt' s' new where
    n: "sdr_loop send r (le_value (take 2 rec)) (int (length rec)) nxt0 (take 5 rec) (take 5 rec) 20 s2 =
          Some (Inr (create_sdr rec nxt'), s')"
       "exchanged s' = exchanged s2 @ new"
       "contiguous (int 5) (int (length rec)) (map fst new)"
       "new \<noteq> []" "list_all (answered send (le_value (take 2 rec)) (int (length rec))) new"
       "nxt' = next_record_id (snd (last new))"
    by (auto simp: s2_def)
  have e: "exchanged s' = exchanged s @ (pre @ (GetDeviceSdr r i 0 5, rsp) # new)"
    using n(2) h(2) p(2) by (simp add: s2_def)
  have c: "chunk_requests (pre @ (GetDeviceSdr r i 0 5, rsp) # new) = GetDeviceSdr r i 0 5 # map fst new"
    using p(3) contiguous_no_reserve [OF n(3)] by (simp add: chunk_requests_def)
  have k: "contiguous 0 (int (length rec)) (GetDeviceSdr r i 0 5 # map fst new)"
    using n(3) l5 by simp
  have ids: "\<forall>q \<in> set (GetDeviceSdr r i 0 5 # map fst new).
                 req_record_id q = i \<or> req_record_id q = le_value (take 2 rec)"
    using n(5) by (auto simp: list_all_iff dest: answered_id)
  have "last new \<in> set new" using n(4) by simp
  with n(5) have a: "answered send (le_value (take 2 rec)) (int (length rec)) (last new)"
    by (simp add: list_all_iff)
  from g n(1) e c k ids a n(6) show ?thesis by (metis (no_types, lifting))
qed



section \<open>What the assembly loop does to the chunk length\<close>

lemma chunk_requests_append: "chunk_requests (xs @ ys) = chunk_requests xs @ chunk_requests ys"
  by (simp add: chunk_requests_def)

lemma descending_mono: "descending b qs \<Longrightarrow> b \<le> b' \<Longrightarrow> descending b' qs"
  by (cases qs) auto

lemma descending_same:
  "\<forall>q \<in> set qs. req_length q = len \<Longrightarrow> len \<le> b \<Longrightarrow> descending len qs' \<Longrightarrow> descending b (qs @ qs')"
proof (induction qs arbitrary: b)
  case Nil
  then show ?case by (simp add: descending_mono)
next
  case (Cons q qs)
  from Cons.prems have "descending (req_length q) (qs @ qs')"
    by (intro Cons.IH) auto
  with Cons.prems show ?case by simp
qed

lemma chunk_requests_fails:
  "list_all (failed_try i off len) fails \<Longrightarrow> \<forall>q \<in> set (chunk_requests fails). req_length q = len"
proof (induction fails)
  case Nil
  show ?case by (simp add: chunk_requests_def)
next
  case (Cons x xs)
  obtain q rsp where x: "x = (q, rsp)" by (cases x)
  from Cons have "\<forall>q \<in> set (chunk_requests xs). req_length q = len" by simp
  moreover from Cons.prems x have "q \<noteq> ReserveDeviceSdrRepository \<longrightarrow> req_length q = len"
    by (cases q) auto
  ultimately show ?case by (simp add: chunk_requests_def x)
qed

lemma get_device_sdr_chunk_lengths:
  "\<exists>new. exchanged (snd (get_device_sdr_chunk send r i off len s)) = exchanged s @ new
         \<and> (\<forall>q \<in> set (chunk_requests new). req_length q = len)"
proof (cases "get_device_sdr_chunk send r i off len s")
  case (Pair res s')
  have ok: "chunk_ok i off len s (res, s')"
    using chunk_loop_ok [of i off len s send r 5] Pair by (simp add: get_device_sdr_chunk_def)
  show ?thesis
  proof (cases res)
    case (Inl e)
    from ok obtain fails where "list_all (failed_try i off len) fails" "exchanged s' = exchanged s @ fails"
      unfolding Inl chunk_ok_Inl by blast
    with chunk_requests_fails [of i off len fails] Pair show ?thesis by auto
  next
    case (Inr p)
    obtain nxt d where p: "p = (nxt, d)" by (cases p)
    from ok obtain fails r' rsp where f: "list_all (failed_try i off len) fails"
      "exchanged s' = exchanged s @ fails @ [(GetDeviceSdr r' i off len, rsp)]"
      unfolding Inr p chunk_ok_Inr by blast
    have "\<forall>q \<in> set (chunk_requests (fails @ [(GetDeviceSdr r' i off len, rsp)])). req_length q = len"
      using chunk_requests_fails [OF f(1)] by (auto simp: chunk_requests_def)
    with f(2) Pair show ?thesis by auto
  qed
qed

lemma try_chunk_max_req_len:
  "(case try_chunk send r i off len nxt data retry s of
      Inl (e, s1) \<Rightarrow> max_req_len s1 = max_req_len s
    | Inr (n, d, k, s1) \<Rightarrow> max_req_len s1 = max_req_len s \<or> max_req_len s1 = max_req_len s - 4)"
proof (cases "get_device_sdr_chunk send r i off len s")
  case (Pair res s')
  have "chunk_ok i off len s (res, s')"
    using chunk_loop_ok [of i off len s send r 5] Pair by (simp add: get_device_sdr_chunk_def)
  hence "max_req_len s' = max_req_len s" by (simp add: chunk_ok_def)
  with Pair show ?thesis
    by (auto simp: try_chunk_def split: sum.splits error.splits)
qed

lemma sdr_loop_shrinking:
  assumes "sdr_loop send r i L nxt data rd retry s = Some R"
  shows "shrinking L rd s R"
  using assms
proof (induction rule: sdr_loop.raw_induct [rotated 1, consumes 1, case_names step])
  case (step loop send r i L nxt data rd retry s R)
  define len where "len = (if L < int (length rd) + max_req_len s
                  then L - int (length rd) else max_req_len s)"
  have lenmin: "len = min (max_req_len s) (L - int (length rd))" by (auto simp: len_def)
  show ?case
  proof (cases "retry - 1 = 0")
    case True
    with step.hyps have "R = (Inl RetryError, s)" by simp
    then show ?thesis by (simp add: shrinking_def chunk_requests_def)
  next
    case False
    from get_device_sdr_chunk_lengths [where send = send and r = r and i = i and off = "int (length rd)" and len = len and s = s] obtain new1 where
      c: "exchanged (snd (get_device_sdr_chunk send r i (int (length rd)) len s)) = exchanged s @ new1"
         "\<forall>q \<in> set (chunk_requests new1). req_length q = len" by blast
    note t = try_chunk_exchanged [of send r i "int (length rd)" len nxt data "retry - 1" s]
    note m = try_chunk_max_req_len [where send = send and r = r and i = i and off = "int (length rd)" and len = len and nxt = nxt and data = data and retry = "retry - 1" and s = s]
    have d1: "descending (min (max_req_len s) (L - int (length rd))) (chunk_requests new1 @ [])"
      by (rule descending_same [OF c(2)]) (simp_all add: lenmin)
    show ?thesis
    proof (cases "try_chunk send r i (int (length rd)) len nxt data (retry - 1) s")
      case (Inl p)
      obtain e s1 where p: "p = (e, s1)" by (cases p)
      from step.hyps False Inl p have R: "R = (Inl e, s1)" by (simp add: len_def)
      from t m Inl p c(1) have "exchanged s1 = exchanged s @ new1" "max_req_len s1 = max_req_len s"
        by simp_all
      with d1 show ?thesis unfolding R shrinking_def by auto
    next
      case (Inr p)
      obtain nxt' data' retry' s1 where p: "p = (nxt', data', retry', s1)" by (cases p)
      from t m Inr p c(1) have e1: "exchanged s1 = exchanged s @ new1"
        and m1: "max_req_len s1 \<le> max_req_len s" by auto
      show ?thesis
      proof (cases "L \<le> int (length (rd @ data'))")
        case True
        from step.hyps False Inr p True
        have R: "R = (Inr (create_sdr (rd @ data') nxt'), s1)" by (simp add: len_def)
        from d1 e1 m1 show ?thesis unfolding R shrinking_def by auto
      next
        case nd: False
        from step.hyps False Inr p nd
        have "loop send r i L nxt' data' (rd @ data') retry' s1 = Some R" by (simp add: len_def)
        from step.IH [OF this] obtain new2 where
          n2: "max_req_len (snd R) \<le> max_req_len s1" "exchanged (snd R) = exchanged s1 @ new2"
              "descending (min (max_req_len s1) (L - int (length (rd @ data')))) (chunk_requests new2)"
          unfolding shrinking_def by blast
        have "min (max_req_len s1) (L - int (length (rd @ data'))) \<le> len"
          using m1 by (auto simp: lenmin)
        from descending_mono [OF n2(3) this] have "descending len (chunk_requests new2)" .
        from descending_same [OF c(2) _ this, of "min (max_req_len s) (L - int (length rd))"]
        have "descending (min (max_req_len s) (L - int (length rd))) (chunk_requests (new1 @ new2))"
          by (simp add: lenmin chunk_requests_append)
        moreover have "exchanged (snd R) = exchanged s @ (new1 @ new2)" using n2(2) e1 by simp
        moreover have "max_req_len (snd R) \<le> max_req_len s" using n2(1) m1 by simp
        ultimately show ?thesis unfolding shrinking_def by blast
      qed
    qed
  qed
qed

section \<open>Sensor readings\<close>

text \<open>
  C7: whenever \<open>get_sensor_reading\<close> returns, the assertion states it returns are
  absent if the response has no first assertion-state byte; otherwise they are that byte,
  combined by bitwise OR with the second byte shifted left by 8 bits when the second byte
  is present too.
\<close>

theorem get_sensor_reading_states:
  assumes "get_sensor_reading send n l t = (Inr (reading, states), t')"
  shows "states =
           (case states1 (fst (send t \<lparr>reading_sensor_number = n, reading_lun = l\<rparr>)) of
              None \<Rightarrow> None
            | Some a \<Rightarrow>
                (case states2 (fst (send t \<lparr>reading_sensor_number = n, reading_lun = l\<rparr>)) of
                   None \<Rightarrow> Some a
                 | Some b \<Rightarrow> Some (a OR push_bit 8 b)))"
  using assms
  by (auto simp: get_sensor_reading_def Let_def
           split: prod.splits sum.splits option.splits if_splits)

theorem get_sensor_reading_states_witness:
  "get_sensor_reading
     (constantly \<lparr>reading_completion_code = 0, sensor_reading = 77,
                  initial_update_in_progress = 0, states1 = Some 0x05, states2 = Some 0x01\<rparr>)
     3 0 () = (Inr (Some 77, Some 0x0105), ())
   \<and> Some (0x0105 :: int) = Some (0x05 OR push_bit 8 0x01)"
  using get_sensor_reading_states [of
      "constantly \<lparr>reading_completion_code = 0, sensor_reading = 77,
                   initial_update_in_progress = 0, states1 = Some 0x05, states2 = Some 0x01\<rparr>"
      3 0 "()" "Some 77" "Some 0x0105" "()"]
  by (simp add: get_sensor_reading_def constantly_def check_completion_code_def)


section \<open>Sensor thresholds\<close>

lemma set_sensor_thresholds_req_eq:
  "set_sensor_thresholds_req req n l a b c d e f =
     \<lparr>sensor_number = n, lun = l,
      set_mask =
        \<lparr>unr = (case a of None \<Rightarrow> unr (set_mask req) | Some v \<Rightarrow> 1),
         ucr = (case b of None \<Rightarrow> ucr (set_mask req) | Some v \<Rightarrow> 1),
         unc = (case c of None \<Rightarrow> unc (set_mask req) | Some v \<Rightarrow> 1),
         lnc = (case d of None \<Rightarrow> lnc (set_mask req) | Some v \<Rightarrow> 1),
         lcr = (case e of None \<Rightarrow> lcr (set_mask req) | Some v \<Rightarrow> 1),
         lnr = (case f of None \<Rightarrow> lnr (set_mask req) | Some v \<Rightarrow> 1)\<rparr>,
      threshold =
        \<lparr>unr = (case a of None \<Rightarrow> unr (threshold req) | Some v \<Rightarrow> v),
         ucr = (case b of None \<Rightarrow> ucr (threshold req) | Some v \<Rightarrow> v),
         unc = (case c of None \<Rightarrow> unc (threshold req) | Some v \<Rightarrow> v),
         lnc = (case d of None \<Rightarrow> lnc (threshold req) | Some v \<Rightarrow> v),
         lcr = (case e of None \<Rightarrow> lcr (threshold req) | Some v \<Rightarrow> v),
         lnr = (case f of None \<Rightarrow> lnr (threshold req) | Some v \<Rightarrow> v)\<rparr>\<rparr>"
  by (cases a; cases b; cases c; cases d; cases e; cases f)
     (simp_all add: set_sensor_thresholds_req_def)

text \<open>
  C8: the request that \<open>set_sensor_thresholds\<close> hands to the transport has, for each
  threshold the caller supplies, the set-mask bit 1 and the supplied value, and for each
  threshold that is not supplied the set-mask bit and the value of the request it started
  from; it carries the sensor number and the lun given.
\<close>

theorem set_sensor_thresholds_sends:
  "set_sensor_thresholds send req n l a b c d e f t =
     (case send t
        \<lparr>sensor_number = n, lun = l,
         set_mask =
           \<lparr>unr = (case a of None \<Rightarrow> unr (set_mask req) | Some v \<Rightarrow> 1),
            ucr = (case b of None \<Rightarrow> ucr (set_mask req) | Some v \<Rightarrow> 1),
            unc = (case c of None \<Rightarrow> unc (set_mask req) | Some v \<Rightarrow> 1),
            lnc = (case d of None \<Rightarrow> lnc (set_mask req) | Some v \<Rightarrow> 1),
            lcr = (case e of None \<Rightarrow> lcr (set_mask req) | Some v \<Rightarrow> 1),
            lnr = (case f of None \<Rightarrow> lnr (set_mask req) | Some v \<Rightarrow> 1)\<rparr>,
         threshold =
           \<lparr>unr = (case a of None \<Rightarrow> unr (threshold req) | Some v \<Rightarrow> v),
            ucr = (case b of None \<Rightarrow> ucr (threshold req) | Some v \<Rightarrow> v),
            unc = (case c of None \<Rightarrow> unc (threshold req) | Some v \<Rightarrow> v),
            lnc = (case d of None \<Rightarrow> lnc (threshold req) | Some v \<Rightarrow> v),
            lcr = (case e of None \<Rightarrow> lcr (threshold req) | Some v \<Rightarrow> v),
            lnr = (case f of None \<Rightarrow> lnr (threshold req) | Some v \<Rightarrow> v)\<rparr>\<rparr> of
        (completion_code', t') \<Rightarrow> (check_completion_code completion_code', t'))"
  by (simp only: set_sensor_thresholds_def set_sensor_thresholds_req_eq)

text \<open>
  The example: with only \<open>ucr = 80\<close> supplied for sensor 1, the request sent has the
  \<open>ucr\<close> bit 1, the \<open>ucr\<close> value 80 and every other set-mask bit 0.
\<close>

lemma set_sensor_thresholds_ucr_sent:
  "set_sensor_thresholds recording blank 1 0 None (Some 80) None None None None [] =
     (Inr (),
      [\<lparr>sensor_number = 1, lun = 0,
        set_mask = \<lparr>unr = 0, ucr = 1, unc = 0, lnc = 0, lcr = 0, lnr = 0\<rparr>,
        threshold = \<lparr>unr = 0, ucr = 80, unc = 0, lnc = 0, lcr = 0, lnr = 0\<rparr>\<rparr>])"
  by (simp add: set_sensor_thresholds_def set_sensor_thresholds_req_def blank_def recording_def
        check_completion_code_def)

section \<open>Evaluating runs\<close>

lemmas run_simps = get_device_sdr_def get_device_sdr_chunk_def chunk_loop.simps sdr_loop.simps
  try_chunk_def send_message_def reserve_device_sdr_repository_def check_completion_code_def
  pop_header_def pop_unsigned_int_def create_sdr_def fresh_def ok_rsp_def cc_rsp_def
  CC_TIMEOUT_def CC_RES_CANCELED_def CC_CANT_RET_NUM_REQ_BYTES_def CC_RESP_COULD_NOT_BE_PRV_def

lemma replicate_6: "replicate 6 x = [x, x, x, x, x, x]"
  by (simp add: numeral_eq_Suc)

lemma replicate_7: "replicate 7 x = [x, x, x, x, x, x, x]"
  by (simp add: numeral_eq_Suc)

section \<open>The retry budget of a chunk fetch\<close>










section \<open>Runs of the assembly on scripted controllers\<close>

text \<open>
  C2: a record of 35 bytes whose header fetch succeeds and whose every later chunk fetch
  is refused with "cannot return requested number of bytes".  The maximum chunk length
  goes 20, 16, 12, 8, 4, 0, and the handler sets \<open>retry\<close> to 0; the next pass
  decrements it to -1 before testing it against 0, so no \<open>RetryError\<close> is raised.
  A chunk request of length 0 is sent, and since every refused fetch appends the bytes of
  the last successful one again, the method returns seven copies of the header as the
  record.
\<close>

theorem get_device_sdr_shrink_run:
  "map_option (map_prod id (map fst \<circ> exchanged))
     (get_device_sdr scripted 0 (Some 7)
        (fresh (ok_rsp 1 [0, 0, 0x51, 1, 30] # replicate 6 (cc_rsp CC_CANT_RET_NUM_REQ_BYTES)))) =
   Some (Inr \<lparr>sdr_data = concat (replicate 7 [0, 0, 0x51, 1, 30]), next_id = 1\<rparr>,
         [GetDeviceSdr 7 0 0 5, GetDeviceSdr 7 0 5 20, GetDeviceSdr 7 0 10 16,
          GetDeviceSdr 7 0 15 12, GetDeviceSdr 7 0 20 8, GetDeviceSdr 7 0 25 4,
          GetDeviceSdr 7 0 30 0])"
  by (simp add: run_simps replicate_6 replicate_7)

text \<open>
  C4: a record whose header fetch succeeds and whose next chunk fetch is answered with
  the completion code \<open>0xc1\<close>.  The chunk fetch raises \<open>CompletionCodeError\<close> with
  that code; the handler of \<open>get_device_sdr\<close> catches it and evaluates the undefined
  name \<open>Assert\<close>, so the caller gets \<open>NameError\<close> instead.
\<close>

theorem get_device_sdr_other_code_run:
  "get_device_sdr_chunk scripted 7 0 5 20 (fresh [cc_rsp 0xc1]) =
     (Inl (CompletionCodeError 0xc1),
      \<lparr>transport = [], max_req_len = 0,
       exchanged = [(GetDeviceSdr 7 0 5 20, cc_rsp 0xc1)]\<rparr>)
   \<and> map_option fst
       (get_device_sdr scripted 0 (Some 7) (fresh [ok_rsp 1 [0, 0, 0x51, 1, 30], cc_rsp 0xc1])) =
     Some (Inl NameError)"
  by (simp add: run_simps)

section \<open>The next record id of an assembled record\<close>

text \<open>
  C9: the record returned by \<open>get_device_sdr\<close> carries the next record id of the last
  chunk request of the call that was answered with success; the header fetch is the first
  of these, so its next id is the one returned only when no later chunk fetch succeeded.
\<close>

theorem get_device_sdr_next_id:
  assumes "get_device_sdr send i ro s = Some (Inr x, s')"
  shows "\<exists>new. exchanged s' = exchanged s @ new \<and> last_fetched None new = Some (next_id x)"
  using get_device_sdr_trace [OF assms] by blast

lemma two_chunks_run:
  "get_device_sdr scripted 0 (Some 7) (fresh [ok_rsp 1 [0, 0, 0x51, 1, 3], ok_rsp 2 [9, 8, 7]]) =
     Some (Inr \<lparr>sdr_data = [0, 0, 0x51, 1, 3, 9, 8, 7], next_id = 2\<rparr>,
           \<lparr>transport = [], max_req_len = 20,
            exchanged = [(GetDeviceSdr 7 0 0 5, ok_rsp 1 [0, 0, 0x51, 1, 3]),
                         (GetDeviceSdr 7 0 5 3, ok_rsp 2 [9, 8, 7])]\<rparr>)"
  by (simp add: run_simps)

theorem get_device_sdr_next_id_witness:
  "get_device_sdr scripted 0 (Some 7) (fresh [ok_rsp 1 [0, 0, 0x51, 1, 3], ok_rsp 2 [9, 8, 7]]) =
     Some (Inr \<lparr>sdr_data = [0, 0, 0x51, 1, 3, 9, 8, 7], next_id = 2\<rparr>,
           \<lparr>transport = [], max_req_len = 20,
            exchanged = [(GetDeviceSdr 7 0 0 5, ok_rsp 1 [0, 0, 0x51, 1, 3]),
                         (GetDeviceSdr 7 0 5 3, ok_rsp 2 [9, 8, 7])]\<rparr>)
   \<and> last_fetched None [(GetDeviceSdr 7 0 0 5, ok_rsp 1 [0, 0, 0x51, 1, 3]),
                         (GetDeviceSdr 7 0 5 3, ok_rsp 2 [9, 8, 7])] = Some 2"
  using get_device_sdr_next_id [OF two_chunks_run] two_chunks_run
  by (simp add: fresh_def)

section \<open>The enumeration of the repository\<close>

text \<open>
  For any transport: when \<open>device_sdr_entries\<close> ends, no header request it has sent
  asks for the record id \<open>0xffff\<close>, and when it ends without an exception the headers
  it has fetched are that of record 0 followed by those of the next ids of the records
  yielded before the last.
\<close>

lemma device_sdr_entries_headers:
  assumes "device_sdr_entries send s = Some ((ys, eo), s')"
  shows "(\<exists>new. exchanged s' = exchanged s @ new
            \<and> (\<forall>q \<in> set (header_requests new). req_record_id q \<noteq> 0xffff)
            \<and> (eo = None \<longrightarrow> fetched new = 0 # map next_id (butlast ys)))
         \<and> (eo = None \<longrightarrow> ys \<noteq> [] \<and> next_id (last ys) = 0xffff
                            \<and> (\<forall>y \<in> set (butlast ys). next_id y \<noteq> 0xffff))"
proof -
  obtain rr s1 where rv: "reserve_device_sdr_repository send s = (rr, s1)"
    by (cases "reserve_device_sdr_repository send s")
  from reserve_trace [OF rv] obtain rsp where
    e1: "exchanged s1 = exchanged s @ [(ReserveDeviceSdrRepository, rsp)]" by blast
  have h1: "header_requests [(ReserveDeviceSdrRepository, rsp)] = []"
    and f1: "fetched [(ReserveDeviceSdrRepository, rsp)] = []"
    by (simp_all add: header_requests_def fetched_def)
  show ?thesis
  proof (cases rr)
    case (Inl e)
    with assms rv have "ys = []" "eo = Some e" "s' = s1" by (simp_all add: device_sdr_entries_def)
    with e1 h1 show ?thesis by auto
  next
    case (Inr r)
    with assms rv have "entries_loop send r 0 [] s1 = Some ((ys, eo), s')"
      by (simp add: device_sdr_entries_def)
    from entries_loop_enumerated [OF this] have "enumerated 0 s1 ys eo s'" by simp
    then obtain new where
      n: "exchanged s' = exchanged s1 @ new"
         "\<forall>q \<in> set (header_requests new). req_record_id q \<noteq> 0xffff"
         "case eo of
            None \<Rightarrow> ys \<noteq> [] \<and> next_id (last ys) = 0xffff \<and>
                   (\<forall>y \<in> set (butlast ys). next_id y \<noteq> 0xffff) \<and>
                   fetched new = 0 # map next_id (butlast ys)
          | Some e \<Rightarrow> (\<forall>y \<in> set ys. next_id y \<noteq> 0xffff)"
      unfolding enumerated_def by auto
    have "exchanged s' = exchanged s @ ((ReserveDeviceSdrRepository, rsp) # new)"
      using n(1) e1 by simp
    moreover have "\<forall>q \<in> set (header_requests ((ReserveDeviceSdrRepository, rsp) # new)). req_record_id q \<noteq> 0xffff"
      using n(2) h1 by (simp add: header_requests_def)
    moreover have "eo = None \<longrightarrow> fetched ((ReserveDeviceSdrRepository, rsp) # new) = 0 # map next_id (butlast ys)"
      using n(3) by (auto simp: fetched_def)
    moreover have "eo = None \<longrightarrow> ys \<noteq> [] \<and> next_id (last ys) = 0xffff
                            \<and> (\<forall>y \<in> set (butlast ys). next_id y \<noteq> 0xffff)"
      using n(3) by auto
    ultimately show ?thesis by blast
  qed
qed




section \<open>A record that is complete after the header fetch\<close>

text \<open>
  C10: when the header fetch of a call, made under the reservation given or obtained,
  returns exactly 5 bytes whose payload length byte is 0, the record is complete, and
  \<open>get_device_sdr\<close> still returns only after its loop has sent a further chunk
  request, at offset 5 and of length 0.
\<close>

theorem get_device_sdr_complete_header:
  assumes rsv: "(case ro of None \<Rightarrow> reserve_device_sdr_repository send s
                 | Some r' \<Rightarrow> (Inr r', s)) = (Inr r, s0)"
      and hdr: "get_device_sdr_chunk send r i 0 5 s0 = (Inr (nxt, data), s1)"
      and len: "length data = 5" and zero: "data ! 4 = 0"
  shows "\<exists>res s' rsp rest. get_device_sdr send i ro s = Some (res, s')
           \<and> exchanged s' = exchanged s1 @ (GetDeviceSdr r (le_value (take 2 data)) 5 0, rsp) # rest"
proof -
  define i' where "i' = le_value (take 2 data)"
  define s2 where "s2 = s1\<lparr>max_req_len := 20\<rparr>"
  from pop_header_5 [OF len] zero obtain v t where ph: "pop_header data = Inr (i', v, t, 0)"
    by (auto simp: i'_def)
  have g: "get_device_sdr send i ro s = sdr_loop send r i' 5 nxt data data 20 s2"
    by (simp add: get_device_sdr_def rsv hdr ph s2_def)
  have "\<exists>R. sdr_loop send r i' 5 nxt data data 20 s2 = Some R"
    by (subst sdr_loop.simps) (auto simp: len split: sum.splits)
  then obtain res s' where l: "sdr_loop send r i' 5 nxt data data 20 s2 = Some (res, s')" by auto
  from sdr_loop_first [OF _ l] obtain rsp rest where
    "exchanged s' = exchanged s2 @ (GetDeviceSdr r i' 5 0, rsp) # rest"
    by (auto simp: len s2_def)
  with g l show ?thesis by (auto simp: s2_def i'_def)
qed

lemma header_only_chunk:
  "get_device_sdr_chunk scripted 7 0 0 5 (fresh [ok_rsp 0xffff [0, 0, 0x51, 1, 0], ok_rsp 0xffff []]) =
     (Inr (0xffff, [0, 0, 0x51, 1, 0]),
      \<lparr>transport = [ok_rsp 0xffff []], max_req_len = 0,
       exchanged = [(GetDeviceSdr 7 0 0 5, ok_rsp 0xffff [0, 0, 0x51, 1, 0])]\<rparr>)"
  by (simp add: run_simps)

theorem get_device_sdr_complete_header_witness:
  "get_device_sdr_chunk scripted 7 0 0 5 (fresh [ok_rsp 0xffff [0, 0, 0x51, 1, 0], ok_rsp 0xffff []]) =
     (Inr (0xffff, [0, 0, 0x51, 1, 0]),
      \<lparr>transport = [ok_rsp 0xffff []], max_req_len = 0,
       exchanged = [(GetDeviceSdr 7 0 0 5, ok_rsp 0xffff [0, 0, 0x51, 1, 0])]\<rparr>)
   \<and> length [0, 0, 0x51, 1, 0 :: byte] = 5 \<and> [0, 0, 0x51, 1, 0 :: byte] ! 4 = 0
   \<and> (\<exists>res s' rsp rest.
         get_device_sdr scripted 0 (Some 7) (fresh [ok_rsp 0xffff [0, 0, 0x51, 1, 0], ok_rsp 0xffff []]) =
           Some (res, s')
         \<and> exchanged s' =
             [(GetDeviceSdr 7 0 0 5, ok_rsp 0xffff [0, 0, 0x51, 1, 0])] @ (GetDeviceSdr 7 0 5 0, rsp) # rest)"
proof -
  have l: "length [0, 0, 0x51, 1, 0 :: byte] = 5" and z: "[0, 0, 0x51, 1, 0 :: byte] ! 4 = 0"
    by simp_all
  have r: "(case Some 7 of None \<Rightarrow> reserve_device_sdr_repository scripted
                                 (fresh [ok_rsp 0xffff [0, 0, 0x51, 1, 0], ok_rsp 0xffff []])
            | Some r' \<Rightarrow> (Inr r', fresh [ok_rsp 0xffff [0, 0, 0x51, 1, 0], ok_rsp 0xffff []])) =
           (Inr 7, fresh [ok_rsp 0xffff [0, 0, 0x51, 1, 0], ok_rsp 0xffff []])"
    by simp
  from get_device_sdr_complete_header [OF r header_only_chunk l z] header_only_chunk l z
  show ?thesis by simp
qed

section \<open>The maximum chunk length\<close>

text \<open>
  C5, as the code has it: \<open>max_req_len\<close> does not survive from one record to the next.
  Here the assembly of record 0 leaves it at 16, and the assembly of record 1, called on
  the same object right after, leaves it at 20.
\<close>

theorem max_req_len_reset_counterexample:
  "get_device_sdr scripted 0 (Some 7) (fresh two_call_script) =
     Some (Inr \<lparr>sdr_data = [0, 0, 0x51, 1, 8, 0, 0, 0x51, 1, 8, 1, 2, 3], next_id = 1\<rparr>,
           after_first_record)
   \<and> max_req_len after_first_record = 16
   \<and> map_option (max_req_len \<circ> snd) (get_device_sdr scripted 1 (Some 7) after_first_record) = Some 20"
  by (simp add: run_simps two_call_script_def after_first_record_def)

text \<open>
  C5, amended: \<open>max_req_len\<close> is monotonically non-increasing within one call of
  \<open>get_device_sdr\<close> only.  Every call that gets its header sets it to 20, whatever
  value the object held before: the first chunk request after the header asks for 20
  bytes, or for what is left of the record if that is less.  From then on the lengths of
  the chunk requests of the call never increase from one request to the next, and the call
  ends with \<open>max_req_len\<close> at most 20.  The \<open>try\<close> statement of each pass of the
  loop leaves \<open>max_req_len\<close> as it is or lowers it by 4, and the loop, from whatever
  pass it is followed, ends with \<open>max_req_len\<close> no greater than at that pass.
\<close>

theorem get_device_sdr_max_req_len:
  assumes rsv: "(case ro of None \<Rightarrow> reserve_device_sdr_repository send s
                 | Some r' \<Rightarrow> (Inr r', s)) = (Inr r, s0)"
      and hdr: "get_device_sdr_chunk send r i 0 5 s0 = (Inr (nxt, data), s1)"
      and ph: "pop_header data = Inr (i', v, t, pl)"
      and ret: "get_device_sdr send i ro s = Some (res, s')"
  shows "max_req_len s' \<le> 20
         \<and> (\<exists>rsp rest. exchanged s' =
               exchanged s1 @ (GetDeviceSdr r i' (int (length data))
                                 (if int pl + 5 < int (length data) + 20
                                  then int pl + 5 - int (length data) else 20), rsp) # rest
               \<and> descending 20 (chunk_requests
                    ((GetDeviceSdr r i' (int (length data))
                                 (if int pl + 5 < int (length data) + 20
                                  then int pl + 5 - int (length data) else 20), rsp) # rest)))
         \<and> (case try_chunk send rp ip offp lenp nxtp datap retryp sp of
               Inl (e, sp') \<Rightarrow> max_req_len sp' = max_req_len sp
             | Inr (n, d, k, sp') \<Rightarrow>
                 max_req_len sp' = max_req_len sp \<or> max_req_len sp' = max_req_len sp - 4)
         \<and> (sdr_loop send rq iq Lq nxtq dataq rdq retryq sq = Some (resq, sq')
               \<longrightarrow> max_req_len sq' \<le> max_req_len sq)"
proof -
  define s2 where "s2 = s1\<lparr>max_req_len := 20\<rparr>"
  define q where "q = GetDeviceSdr r i' (int (length data))
                                 (if int pl + 5 < int (length data) + 20
                                  then int pl + 5 - int (length data) else 20)"
  from ret have l: "sdr_loop send r i' (int pl + 5) nxt data data 20 s2 = Some (res, s')"
    by (simp add: get_device_sdr_def rsv hdr ph s2_def)
  from sdr_loop_shrinking [OF l] obtain new where
    n: "max_req_len s' \<le> 20" "exchanged s' = exchanged s2 @ new"
       "descending (min 20 (int pl + 5 - int (length data))) (chunk_requests new)"
    by (auto simp: shrinking_def s2_def)
  from sdr_loop_first [OF _ l] obtain rsp rest where
    f: "exchanged s' = exchanged s2 @ (q, rsp) # rest"
    by (auto simp: s2_def q_def)
  from n(2) f have "new = (q, rsp) # rest" by simp
  with n(3) have "descending 20 (chunk_requests ((q, rsp) # rest))"
    by (auto intro: descending_mono)
  with f have a: "\<exists>rsp rest. exchanged s' = exchanged s1 @ (q, rsp) # rest
                   \<and> descending 20 (chunk_requests ((q, rsp) # rest))"
    by (auto simp: s2_def)
  have b: "sdr_loop send rq iq Lq nxtq dataq rdq retryq sq = Some (resq, sq')
               \<longrightarrow> max_req_len sq' \<le> max_req_len sq"
    using sdr_loop_shrinking [where send = send and r = rq and i = iq and L = Lq and nxt = nxtq and data = dataq and rd = rdq and retry = retryq and s = sq and R = "(resq, sq')"]
    by (simp add: shrinking_def)
  from n(1) a try_chunk_max_req_len [where send = send and r = rp and i = ip and off = offp and len = lenp and nxt = nxtp and data = datap and retry = retryp and s = sp] b
  show ?thesis unfolding q_def by blast
qed

lemma stale_header_chunk:
  "get_device_sdr_chunk scripted 7 0 0 5 stale_object = (Inr (1, [0, 0, 0x51, 1, 30]), stale_after_header)"
  by (simp add: run_simps stale_object_def stale_after_header_def shrink_script_def)

lemma stale_header_pop: "pop_header [0, 0, 0x51, 1, 30] = Inr (0, 0x51, 1, 30)"
  by (simp add: pop_header_def pop_unsigned_int_def)

lemma stale_run:
  "map_option (map fst \<circ> exchanged \<circ> snd) (get_device_sdr scripted 0 (Some 7) stale_object) =
     Some [GetDeviceSdr 7 0 0 5, GetDeviceSdr 7 0 5 20, GetDeviceSdr 7 0 10 16, GetDeviceSdr 7 0 26 9]
   \<and> map_option (max_req_len \<circ> snd) (get_device_sdr scripted 0 (Some 7) stale_object) = Some 16"
  by (simp add: run_simps stale_object_def shrink_script_def)

theorem get_device_sdr_max_req_len_witness:
  "get_device_sdr_chunk scripted 7 0 0 5 stale_object = (Inr (1, [0, 0, 0x51, 1, 30]), stale_after_header)
   \<and> pop_header [0, 0, 0x51, 1, 30] = Inr (0, 0x51, 1, 30)
   \<and> (\<exists>res s'. get_device_sdr scripted 0 (Some 7) stale_object = Some (res, s')
         \<and> sdr_loop scripted 7 0 35 1 [0, 0, 0x51, 1, 30] [0, 0, 0x51, 1, 30] 20
              (stale_after_header\<lparr>max_req_len := 20\<rparr>) = Some (res, s')
         \<and> max_req_len s' \<le> 20
         \<and> max_req_len s' \<le> max_req_len (stale_after_header\<lparr>max_req_len := 20\<rparr>)
         \<and> (\<exists>rsp rest. exchanged s' = exchanged stale_after_header @ (GetDeviceSdr 7 0 5 20, rsp) # rest
               \<and> descending 20 (chunk_requests ((GetDeviceSdr 7 0 5 20, rsp) # rest))))"
proof -
  from stale_run obtain res s' where
    run: "get_device_sdr scripted 0 (Some 7) stale_object = Some (res, s')"
    by auto
  have r: "(case Some 7 of None \<Rightarrow> reserve_device_sdr_repository scripted stale_object
            | Some r' \<Rightarrow> (Inr r', stale_object)) = (Inr 7, stale_object)"
    by simp
  from run have loop: "sdr_loop scripted 7 0 35 1 [0, 0, 0x51, 1, 30] [0, 0, 0x51, 1, 30] 20
              (stale_after_header\<lparr>max_req_len := 20\<rparr>) = Some (res, s')"
    by (simp add: get_device_sdr_def stale_header_chunk stale_header_pop)
  from get_device_sdr_max_req_len [OF r stale_header_chunk stale_header_pop run,
      where rq = 7 and iq = 0 and Lq = 35 and nxtq = 1 and dataq = "[0, 0, 0x51, 1, 30]"
        and rdq = "[0, 0, 0x51, 1, 30]" and retryq = 20
        and sq = "stale_after_header\<lparr>max_req_len := 20\<rparr>" and resq = res and sq' = s']
    loop
  have "max_req_len s' \<le> 20
         \<and> max_req_len s' \<le> max_req_len (stale_after_header\<lparr>max_req_len := 20\<rparr>)
         \<and> (\<exists>rsp rest. exchanged s' = exchanged stale_after_header @ (GetDeviceSdr 7 0 5 20, rsp) # rest
               \<and> descending 20 (chunk_requests ((GetDeviceSdr 7 0 5 20, rsp) # rest)))"
    by simp
  with run loop stale_header_chunk stale_header_pop show ?thesis by blast
qed

section \<open>Assembly of a record\<close>

text \<open>
  C1: let \<open>rec\<close> be a record whose length is its payload length byte plus 5, and let the
  controller serve it, so that every chunk fetch succeeds.  Then \<open>get_device_sdr\<close>
  returns, and what it hands to the record decoder is \<open>rec\<close> itself, all of its bytes in
  order.  The chunk requests it has sent read the record from offset 0 to its length: each
  starts where the one before ended, the offsets increase strictly, and no request reaches
  beyond the length of the record.
\<close>

theorem get_device_sdr_assembles:
  assumes wf: "length rec = unat (rec ! 4) + 5"
      and sv: "serves send i rec" and sv': "serves send (le_value (take 2 rec)) rec"
      and rs: "ro = None \<longrightarrow> (\<forall>t. completion_code (fst (send t ReserveDeviceSdrRepository)) = 0)"
  shows "\<exists>nxt s' new. get_device_sdr send i ro s = Some (Inr (create_sdr rec nxt), s')
           \<and> exchanged s' = exchanged s @ new
           \<and> contiguous 0 (int (length rec)) (chunk_requests new)"
  using get_device_sdr_served [OF wf sv sv' rs, of s] by blast

theorem get_device_sdr_assembles_witness:
  "length [2, 0, 0x51, 1, 2, 0xbb, 0xcc :: byte] = unat ([2, 0, 0x51, 1, 2, 0xbb, 0xcc :: byte] ! 4) + 5
   \<and> serves (repository three_records) 2 [2, 0, 0x51, 1, 2, 0xbb, 0xcc]
   \<and> (\<forall>t. completion_code (fst (repository three_records t ReserveDeviceSdrRepository)) = 0)
   \<and> (\<exists>nxt s' new. get_device_sdr (repository three_records) 2 None (fresh ()) =
            Some (Inr (create_sdr [2, 0, 0x51, 1, 2, 0xbb, 0xcc] nxt), s')
          \<and> exchanged s' = exchanged (fresh ()) @ new
          \<and> contiguous 0 7 (chunk_requests new))"
proof -
  have wf: "length [2, 0, 0x51, 1, 2, 0xbb, 0xcc :: byte] = unat ([2, 0, 0x51, 1, 2, 0xbb, 0xcc :: byte] ! 4) + 5"
    by simp
  have sv: "serves (repository three_records) 2 [2, 0, 0x51, 1, 2, 0xbb, 0xcc]"
    by (simp add: serves_def repository_def three_records_def ok_rsp_def)
  have sv': "serves (repository three_records) (le_value (take 2 [2, 0, 0x51, 1, 2, 0xbb, 0xcc])) [2, 0, 0x51, 1, 2, 0xbb, 0xcc]"
    using sv by simp
  have rs: "\<forall>t. completion_code (fst (repository three_records t ReserveDeviceSdrRepository)) = 0"
    by (simp add: repository_def)
  from get_device_sdr_assembles [OF wf sv sv', of None "fresh ()"] rs wf sv
  show ?thesis by simp
qed

end
